theory Spec2Isabelle
  imports Main "HOL-Library.Word" "HOL-Library.AList"
begin

unbundle bit_operations_syntax

chapter \<open>Definitions\<close>

section \<open>The administrative HTTP surface (pkg/proxy/api.go)\<close>

text \<open>
  The status codes of net/http that the handlers use, as the integers they are.
\<close>

definition StatusOK :: int where
  "StatusOK = 200"

definition StatusBadRequest :: int where
  "StatusBadRequest = 400"

definition StatusUnauthorized :: int where
  "StatusUnauthorized = 401"

definition StatusInternalServerError :: int where
  "StatusInternalServerError = 500"

text \<open>
  \<^verbatim>\<open>type CommonJsonResp struct { Code int; Msg string }\<close>
\<close>

record CommonJsonResp =
  Code :: int
  Msg :: string

definition CreateJsonResp :: "int \<Rightarrow> string \<Rightarrow> CommonJsonResp" where
  "CreateJsonResp code msg = \<lparr>Code = code, Msg = msg\<rparr>"

definition CreateSuccessJsonResp :: CommonJsonResp where
  "CreateSuccessJsonResp = \<lparr>Code = StatusOK, Msg = ''success''\<rparr>"

text \<open>
  What a handler leaves in the gin context: the HTTP status line and, when it was written
  with \<^verbatim>\<open>c.JSON\<close>, the JSON body. A response written by a middleware that aborts
  the chain carries no JSON body.
\<close>

record http_response =
  http_status :: int
  json_body :: "CommonJsonResp option"

definition JSON :: "int \<Rightarrow> CommonJsonResp \<Rightarrow> http_response" where
  "JSON st obj = \<lparr>http_status = st, json_body = Some obj\<rparr>"

text \<open>
  The part of a request the handlers and the middleware read: the path parameters that
  the router bound (\<^verbatim>\<open>c.Param\<close>), and the credentials of the Authorization header,
  when the request has one.
\<close>

record request =
  path_params :: "(string \<times> string) list"
  credentials :: "(string \<times> string) option"

definition ParamNamespace :: string where
  "ParamNamespace = ''namespace''"

text \<open>\<^verbatim>\<open>c.Param(key)\<close>: the value bound to the key, the empty string when none is.\<close>

definition Param :: "request \<Rightarrow> string \<Rightarrow> string" where
  "Param c k = (case map_of (path_params c) k of None \<Rightarrow> [] | Some v \<Rightarrow> v)"

text \<open>
  The namespace manager and the configuration centre are other packages; the handlers
  only call them. Their operations are parameters of the model: each takes the
  collaborators' state \<open>'m\<close> and returns the error (if any) with the state after the call.
\<close>

record ('m, 'cfg, 'e) collaborators =
  RemoveNamespace :: "string \<Rightarrow> 'm \<Rightarrow> 'm"
  GetNamespace :: "string \<Rightarrow> 'm \<Rightarrow> 'e + 'cfg"
  PrepareReloadNamespace :: "string \<Rightarrow> 'cfg \<Rightarrow> 'm \<Rightarrow> 'e option \<times> 'm"
  CommitReloadNamespaces :: "string list \<Rightarrow> 'm \<Rightarrow> 'e option \<times> 'm"
  RedirectConnections :: "'m \<Rightarrow> 'e option \<times> 'm"

definition HandleRemoveNamespace ::
  "('m, 'cfg, 'e) collaborators \<Rightarrow> request \<Rightarrow> 'm \<Rightarrow> http_response \<times> 'm" where
  "HandleRemoveNamespace n c m =
     (let ns = Param c ParamNamespace in
      if ns = [] then
        (JSON StatusOK (CreateJsonResp StatusBadRequest ''bad namespace parameter''), m)
      else
        (JSON StatusOK CreateSuccessJsonResp, RemoveNamespace n ns m))"

definition HandlePrepareReload ::
  "('m, 'cfg, 'e) collaborators \<Rightarrow> request \<Rightarrow> 'm \<Rightarrow> http_response \<times> 'm" where
  "HandlePrepareReload n c m =
     (let ns = Param c ParamNamespace in
      if ns = [] then
        (JSON StatusOK (CreateJsonResp StatusBadRequest ''bad namespace parameter''), m)
      else
        (case GetNamespace n ns m of
           Inl err \<Rightarrow>
             (JSON StatusOK (CreateJsonResp StatusInternalServerError
                ''get namespace value from configcenter error''), m)
         | Inr nscfg \<Rightarrow>
             (case PrepareReloadNamespace n ns nscfg m of
                (Some err, m') \<Rightarrow>
                  (JSON StatusOK (CreateJsonResp StatusInternalServerError
                     ''prepare reload namespace error''), m')
              | (None, m') \<Rightarrow> (JSON StatusOK CreateSuccessJsonResp, m'))))"

definition HandleCommitReload ::
  "('m, 'cfg, 'e) collaborators \<Rightarrow> request \<Rightarrow> 'm \<Rightarrow> http_response \<times> 'm" where
  "HandleCommitReload n c m =
     (let ns = Param c ParamNamespace in
      if ns = [] then
        (JSON StatusOK (CreateJsonResp StatusBadRequest ''bad namespace parameter''), m)
      else
        (case CommitReloadNamespaces n [ns] m of
           (Some err, m') \<Rightarrow>
             (JSON StatusOK (CreateJsonResp StatusInternalServerError
                ''commit reload namespace error''), m')
         | (None, m') \<Rightarrow> (JSON StatusOK CreateSuccessJsonResp, m')))"

text \<open>\<^verbatim>\<open>TestHttpHandler.Redirect\<close>, the handler of POST /test/redirect.\<close>

definition Redirect ::
  "('m, 'cfg, 'e) collaborators \<Rightarrow> request \<Rightarrow> 'm \<Rightarrow> http_response \<times> 'm" where
  "Redirect t c m =
     (case RedirectConnections t m of
        (Some err, m') \<Rightarrow>
          (JSON StatusOK (CreateJsonResp StatusInternalServerError
             ''redirect connections error''), m')
      | (None, m') \<Rightarrow> (JSON StatusOK CreateSuccessJsonResp, m'))"

text \<open>
  The four routes that answer with a \<^verbatim>\<open>CommonJsonResp\<close>, and the handler each one is
  bound to (\<^verbatim>\<open>AddHandlersToRouteGroup\<close> and the /test group of
  \<^verbatim>\<open>CreateHttpApiServer\<close>).
\<close>

datatype admin_route = RouteRemove | RoutePrepareReload | RouteCommitReload | RouteTestRedirect

fun route_handler ::
  "admin_route \<Rightarrow> ('m, 'cfg, 'e) collaborators \<Rightarrow> request \<Rightarrow> 'm \<Rightarrow> http_response \<times> 'm" where
  "route_handler RouteRemove = HandleRemoveNamespace"
| "route_handler RoutePrepareReload = HandlePrepareReload"
| "route_handler RouteCommitReload = HandleCommitReload"
| "route_handler RouteTestRedirect = Redirect"

text \<open>
  When the operation behind a route succeeds: the namespace parameter is there (for the
  routes that take one) and no call to a collaborator returned an error.
\<close>

fun operation_succeeds ::
  "admin_route \<Rightarrow> ('m, 'cfg, 'e) collaborators \<Rightarrow> request \<Rightarrow> 'm \<Rightarrow> bool" where
  "operation_succeeds RouteRemove n c m = (Param c ParamNamespace \<noteq> [])"
| "operation_succeeds RoutePrepareReload n c m =
     (Param c ParamNamespace \<noteq> [] \<and>
      (case GetNamespace n (Param c ParamNamespace) m of
         Inl err \<Rightarrow> False
       | Inr nscfg \<Rightarrow> fst (PrepareReloadNamespace n (Param c ParamNamespace) nscfg m) = None))"
| "operation_succeeds RouteCommitReload n c m =
     (Param c ParamNamespace \<noteq> [] \<and>
      fst (CommitReloadNamespaces n [Param c ParamNamespace] m) = None)"
| "operation_succeeds RouteTestRedirect n c m = (fst (RedirectConnections n m) = None)"

text \<open>The routes that \<^verbatim>\<open>AddHandlersToRouteGroup\<close> puts under /admin/namespace.\<close>

definition namespace_routes :: "admin_route list" where
  "namespace_routes = [RouteRemove, RoutePrepareReload, RouteCommitReload]"

subsection \<open>The route group of the namespace endpoints and its middleware\<close>

text \<open>
  \<^verbatim>\<open>cfg.AdminServer\<close>: the listen address and the basic-auth account of the admin
  server.
\<close>

record AdminServer =
  Addr :: string
  User :: string
  Password :: string

text \<open>
  A gin router group carries the chain of middleware that runs before its handlers. Two
  kinds of middleware are installed by this file: \<^verbatim>\<open>gin.Recovery()\<close> on the engine and
  \<^verbatim>\<open>gin.BasicAuth(accounts)\<close> on the namespace group.
\<close>

datatype middleware = Recovery | BasicAuth "(string \<times> string) list"

record RouterGroup =
  basePath :: string
  Handlers :: "middleware list"

definition Use :: "RouterGroup \<Rightarrow> middleware \<Rightarrow> RouterGroup" where
  "Use g mw = g\<lparr>Handlers := Handlers g @ [mw]\<rparr>"

definition Group :: "RouterGroup \<Rightarrow> string \<Rightarrow> RouterGroup" where
  "Group g p = \<lparr>basePath = basePath g @ p, Handlers = Handlers g\<rparr>"

definition wrapBasicAuthGinMiddleware :: "AdminServer \<Rightarrow> RouterGroup \<Rightarrow> RouterGroup" where
  "wrapBasicAuthGinMiddleware cfg g =
     (let basicAuthUser = User cfg; basicAuthPassword = Password cfg in
      if basicAuthUser \<noteq> [] \<and> basicAuthPassword \<noteq> [] then
        Use g (BasicAuth [(basicAuthUser, basicAuthPassword)])
      else g)"

text \<open>
  The first lines of \<^verbatim>\<open>CreateHttpApiServer\<close> that build the namespace group:
  \<^verbatim>\<open>gin.New()\<close>, \<^verbatim>\<open>engine.Use(gin.Recovery())\<close>,
  \<^verbatim>\<open>engine.Group("/admin/namespace")\<close> and the call of
  \<^verbatim>\<open>wrapBasicAuthGinMiddleware\<close>.
\<close>

definition engine :: RouterGroup where
  "engine = Use \<lparr>basePath = ''/'', Handlers = []\<rparr> Recovery"

definition namespaceRouteGroup :: "AdminServer \<Rightarrow> RouterGroup" where
  "namespaceRouteGroup cfg = wrapBasicAuthGinMiddleware cfg (Group engine ''admin/namespace'')"

text \<open>
  How gin runs a chain: each middleware either lets the request through or aborts with a
  response of its own. \<^verbatim>\<open>gin.BasicAuth\<close> aborts with 401 unless the request's
  credentials are one of its accounts; \<^verbatim>\<open>gin.Recovery\<close> only acts on a panic, which the
  model does not have.
\<close>

fun run_middleware :: "middleware \<Rightarrow> request \<Rightarrow> http_response option" where
  "run_middleware Recovery c = None"
| "run_middleware (BasicAuth accounts) c =
     (case credentials c of
        None \<Rightarrow> Some \<lparr>http_status = StatusUnauthorized, json_body = None\<rparr>
      | Some up \<Rightarrow>
          if up \<in> set accounts then None
          else Some \<lparr>http_status = StatusUnauthorized, json_body = None\<rparr>)"

fun run_chain :: "middleware list \<Rightarrow> request \<Rightarrow> http_response option" where
  "run_chain [] c = None"
| "run_chain (mw # mws) c =
     (case run_middleware mw c of Some r \<Rightarrow> Some r | None \<Rightarrow> run_chain mws c)"

definition serve ::
  "RouterGroup \<Rightarrow> (request \<Rightarrow> 'm \<Rightarrow> http_response \<times> 'm) \<Rightarrow> request \<Rightarrow> 'm \<Rightarrow> http_response \<times> 'm" where
  "serve g h c m = (case run_chain (Handlers g) c of Some r \<Rightarrow> (r, m) | None \<Rightarrow> h c m)"

fun is_auth_check :: "middleware \<Rightarrow> bool" where
  "is_auth_check Recovery = False"
| "is_auth_check (BasicAuth accounts) = True"

text \<open>Concrete inputs used by the examples below.\<close>

definition failing_ops :: "(nat, unit, string) collaborators" where
  "failing_ops =
     \<lparr>RemoveNamespace = (\<lambda>ns m. m),
      GetNamespace = (\<lambda>ns m. Inr ()),
      PrepareReloadNamespace = (\<lambda>ns cfg m. (Some ''invalid'', m)),
      CommitReloadNamespaces = (\<lambda>nss m. (None, Suc m)),
      RedirectConnections = (\<lambda>m. (Some ''unreachable'', m))\<rparr>"

definition req_ns :: "string \<Rightarrow> request" where
  "req_ns ns = \<lparr>path_params = [(''namespace'', ns)], credentials = None\<rparr>"

definition cfg_no_password :: AdminServer where
  "cfg_no_password = \<lparr>Addr = ''0.0.0.0:4000'', User = ''admin'', Password = []\<rparr>"

section \<open>The SQL server: accept loop, admission, registry and shutdown (SQLServer)\<close>

subsection \<open>Data\<close>

text \<open>
  An accepted socket (\<^verbatim>\<open>net.Conn\<close>) is known by an identity; the code only asks
  whether it is a \<^verbatim>\<open>*net.TCPConn\<close>.
\<close>

datatype conn = TCPConn nat | OtherConn nat

text \<open>
  Errors are values. \<^verbatim>\<open>ErrClosed\<close> is \<^verbatim>\<open>net.ErrClosed\<close>, \<^verbatim>\<open>ErrCloseServer\<close>
  the package's own error, \<^verbatim>\<open>NetError\<close> any other error of a socket, and
  \<^verbatim>\<open>MError\<close> an error that carries a list of collected errors.
\<close>

datatype error = ErrClosed | ErrCloseServer | NetError string | MError error "error list"

text \<open>
  Modelled from the spec: \<^verbatim>\<open>errors.Collect\<close> of pkg/util/errors, which is not among the
  sources. The spec says of shutdown that it "returns an aggregated error if any individual
  socket close failed"; with nothing to aggregate there is no error.
\<close>

definition Collect :: "error \<Rightarrow> error list \<Rightarrow> error option" where
  "Collect e errs = (if errs = [] then None else Some (MError e errs))"

text \<open>
  \<^verbatim>\<open>client.NewClientConnection(logger, conn, ..., backend.NewBackendConnManager(connID))\<close>:
  the client connection owns the socket and a backend connection manager made for the
  connection id.
\<close>

record ClientConnection =
  cc_conn :: conn
  cc_connID :: "64 word"

definition NewClientConnection :: "conn \<Rightarrow> 64 word \<Rightarrow> ClientConnection" where
  "NewClientConnection c cid = \<lparr>cc_conn = c, cc_connID = cid\<rparr>"

text \<open>
  \<^verbatim>\<open>serverState\<close>, the fields behind the server's lock. The Go map
  \<^verbatim>\<open>clients\<close> is an association list with one entry per key (\<open>AList.update\<close>
  replaces the entry of a key that is there); Go leaves the iteration order of a map open,
  and nothing below depends on the order of the list.
\<close>

record serverState =
  tcpKeepAlive :: bool
  connID :: "64 word"
  maxConnections :: "64 word"
  clients :: "(64 word \<times> ClientConnection) list"

text \<open>What the code does to the outside: sockets closed, client connections run.\<close>

datatype effect =
    ListenerClose
  | ConnClose conn
  | SetKeepAlive conn
  | ClientRun "64 word" conn
  | ClientClose "64 word" conn

text \<open>
  The goroutines started with \<^verbatim>\<open>s.wg.Run\<close>, each at one of the places of
  \<^verbatim>\<open>onConn\<close> where other goroutines can run in between: started and not yet through
  the locked admission block; registered and inside \<^verbatim>\<open>clientConn.Run\<close>; the deferred
  function has deleted the id and released the lock, \<^verbatim>\<open>clientConn.Close()\<close> and the
  return are outstanding; returned.
\<close>

datatype handler =
    Spawned conn
  | Serving "64 word" ClientConnection
  | Closing "64 word" ClientConnection
  | Exited

text \<open>The connection id a handler holds, once it has got one and until it has returned.\<close>

fun handler_id :: "handler \<Rightarrow> 64 word option" where
  "handler_id (Spawned c) = None"
| "handler_id (Serving cid clientConn) = Some cid"
| "handler_id (Closing cid clientConn) = Some cid"
| "handler_id Exited = None"

text \<open>Where \<^verbatim>\<open>Run\<close> and \<^verbatim>\<open>Close\<close> stand.\<close>

datatype run_state = Accepting | Accepted conn | Draining | RunReturned "error option"

datatype close_state =
    NotCalled
  | ListenerClosed "error list"
  | Swept "error list"
  | CloseReturned "error option"

text \<open>
  The server. \<open>mu\<close> is the locked state; \<open>listener_open\<close> tells whether the listener
  still accepts; \<open>wg\<close> is the wait group, one entry per goroutine it has started, in the
  order they were started; \<open>ctx_done\<close> is the context of \<^verbatim>\<open>Run\<close>. Two fields are not
  in the source: \<open>effects\<close> lists what was done to the outside, and \<open>admissions\<close> lists
  the connections that got an id, in the order in which their goroutines held the lock.
\<close>

record SQLServer =
  mu :: serverState
  listener_open :: bool
  ctx_done :: bool
  wg :: "handler list"
  run_pc :: run_state
  close_pc :: close_state
  effects :: "effect list"
  admissions :: "(64 word \<times> conn) list"

text \<open>
  \<^verbatim>\<open>NewSQLServer\<close>, once the TLS configurations and the listener have been made (their
  failure returns an error and no server).
\<close>

definition NewSQLServer :: "bool \<Rightarrow> 64 word \<Rightarrow> SQLServer" where
  "NewSQLServer TCPKeepAlive MaxConnections =
     \<lparr>mu = \<lparr>tcpKeepAlive = TCPKeepAlive, connID = 0, maxConnections = MaxConnections,
            clients = []\<rparr>,
      listener_open = True, ctx_done = False, wg = [], run_pc = Accepting,
      close_pc = NotCalled, effects = [], admissions = []\<rparr>"

subsection \<open>onConn\<close>

text \<open>
  The block of \<^verbatim>\<open>onConn\<close> between \<^verbatim>\<open>s.mu.Lock()\<close> and
  \<^verbatim>\<open>s.mu.Unlock()\<close>: the count of registered clients is compared with the limit, and
  either nothing is changed, or the connection takes the counter's value as its id, the
  counter is incremented and the client connection is stored under the id.
\<close>

datatype admission = Rejected | Admitted "64 word" ClientConnection

definition onConn_locked :: "conn \<Rightarrow> serverState \<Rightarrow> admission \<times> serverState" where
  "onConn_locked c st =
     (let conns = (of_nat (length (clients st)) :: 64 word);
          maxConns = maxConnections st
      in if maxConns \<noteq> 0 \<and> maxConns \<le> conns then (Rejected, st)
         else
           (let cid = connID st;
                clientConn = NewClientConnection c cid
            in (Admitted cid clientConn,
                st\<lparr>connID := connID st + 1,
                   clients := AList.update cid clientConn (clients st)\<rparr>)))"

text \<open>The locked block of the deferred function: \<^verbatim>\<open>delete(s.mu.clients, connID)\<close>.\<close>

definition onConn_deferred :: "64 word \<Rightarrow> serverState \<Rightarrow> serverState" where
  "onConn_deferred cid st = st\<lparr>clients := AList.delete cid (clients st)\<rparr>"

text \<open>
  What an admitted handler does after the lock is released and before it blocks in
  \<^verbatim>\<open>clientConn.Run\<close>: the keep-alive option is set when it is configured and the socket
  is a TCP socket.
\<close>

fun is_tcp :: "conn \<Rightarrow> bool" where
  "is_tcp (TCPConn n) = True"
| "is_tcp (OtherConn n) = False"

definition onConn_body :: "bool \<Rightarrow> 64 word \<Rightarrow> conn \<Rightarrow> effect list" where
  "onConn_body keepAlive cid c =
     (if keepAlive \<and> is_tcp c then [SetKeepAlive c] else []) @ [ClientRun cid c]"

text \<open>
  The steps of one handler on the server, \<open>i\<close> being its place in the wait group.
  \<open>do_admit\<close> is \<^verbatim>\<open>onConn\<close> up to the call of \<^verbatim>\<open>clientConn.Run\<close>: on rejection
  the socket is closed and the handler returns; on admission the handler is registered.
  \<open>do_leave\<close> is the locked block of the deferred function, \<open>do_finish\<close> its
  \<^verbatim>\<open>clientConn.Close()\<close> and the return.
\<close>

definition do_admit :: "nat \<Rightarrow> SQLServer \<Rightarrow> SQLServer" where
  "do_admit i s =
     (case wg s ! i of
        Spawned c \<Rightarrow>
          (case onConn_locked c (mu s) of
             (Rejected, st) \<Rightarrow>
               s\<lparr>mu := st, wg := (wg s)[i := Exited], effects := effects s @ [ConnClose c]\<rparr>
           | (Admitted cid clientConn, st) \<Rightarrow>
               s\<lparr>mu := st, wg := (wg s)[i := Serving cid clientConn],
                 effects := effects s @ onConn_body (tcpKeepAlive (mu s)) cid c,
                 admissions := admissions s @ [(cid, c)]\<rparr>)
      | _ \<Rightarrow> s)"

definition do_leave :: "nat \<Rightarrow> SQLServer \<Rightarrow> SQLServer" where
  "do_leave i s =
     (case wg s ! i of
        Serving cid clientConn \<Rightarrow>
          s\<lparr>mu := onConn_deferred cid (mu s), wg := (wg s)[i := Closing cid clientConn]\<rparr>
      | _ \<Rightarrow> s)"

definition do_finish :: "nat \<Rightarrow> SQLServer \<Rightarrow> SQLServer" where
  "do_finish i s =
     (case wg s ! i of
        Closing cid clientConn \<Rightarrow>
          s\<lparr>wg := (wg s)[i := Exited],
            effects := effects s @ [ClientClose cid (cc_conn clientConn)]\<rparr>
      | _ \<Rightarrow> s)"

subsection \<open>Run\<close>

text \<open>
  Modelled from the spec: \<^verbatim>\<open>waitgroup.WaitGroup\<close> of pkg/util/waitgroup, which is not
  among the sources. \<^verbatim>\<open>Run\<close> starts the function in a unit of its own and counts it
  until it has returned; \<^verbatim>\<open>Wait\<close> is the spec's join barrier: it returns when no
  counted unit is left.
\<close>

definition wg_Run :: "conn \<Rightarrow> handler list \<Rightarrow> handler list" where
  "wg_Run c hs = hs @ [Spawned c]"

definition wg_idle :: "handler list \<Rightarrow> bool" where
  "wg_idle hs = list_all (\<lambda>h. h = Exited) hs"

text \<open>
  The two halves of one turn of the loop of \<^verbatim>\<open>Run\<close>: \<^verbatim>\<open>s.listener.Accept()\<close> has
  returned a connection, and \<^verbatim>\<open>s.wg.Run(func() { s.onConn(ctx, conn) })\<close>.
\<close>

definition do_accept :: "conn \<Rightarrow> SQLServer \<Rightarrow> SQLServer" where
  "do_accept c s = s\<lparr>run_pc := Accepted c\<rparr>"

definition do_spawn :: "conn \<Rightarrow> SQLServer \<Rightarrow> SQLServer" where
  "do_spawn c s = s\<lparr>wg := wg_Run c (wg s), run_pc := Accepting\<rparr>"

subsection \<open>Close\<close>

text \<open>
  The loop of \<^verbatim>\<open>Close\<close> over the registered clients: every client connection is
  closed, and an error of a close is appended to \<open>errs\<close>. \<open>cl\<close> gives the result of
  \<^verbatim>\<open>conn.Close()\<close> for each client connection.
\<close>

fun close_clients ::
  "(ClientConnection \<Rightarrow> error option) \<Rightarrow> (64 word \<times> ClientConnection) list \<Rightarrow>
   error list \<times> effect list \<Rightarrow> error list \<times> effect list" where
  "close_clients cl [] (errs, effs) = (errs, effs)"
| "close_clients cl ((cid, clientConn) # rest) (errs, effs) =
     close_clients cl rest
       (case cl clientConn of
          Some err \<Rightarrow> (errs @ [err], effs @ [ClientClose cid (cc_conn clientConn)])
        | None \<Rightarrow> (errs, effs @ [ClientClose cid (cc_conn clientConn)]))"

text \<open>
  \<^verbatim>\<open>Close\<close> in three steps, with other goroutines running in between: the listener is
  closed (\<open>lerr\<close> is the result of \<^verbatim>\<open>s.listener.Close()\<close>); under the lock, the
  registered clients are closed; after \<^verbatim>\<open>s.wg.Wait()\<close> has returned, the collected
  errors are returned.
\<close>

definition do_close_listener :: "error option \<Rightarrow> SQLServer \<Rightarrow> SQLServer" where
  "do_close_listener lerr s =
     s\<lparr>listener_open := False,
       close_pc := ListenerClosed (case lerr of Some err \<Rightarrow> [err] | None \<Rightarrow> []),
       effects := effects s @ [ListenerClose]\<rparr>"

definition do_close_sweep :: "(ClientConnection \<Rightarrow> error option) \<Rightarrow> SQLServer \<Rightarrow> SQLServer" where
  "do_close_sweep cl s =
     (case close_pc s of
        ListenerClosed errs \<Rightarrow>
          (case close_clients cl (clients (mu s)) (errs, effects s) of
             (errs', effs') \<Rightarrow> s\<lparr>close_pc := Swept errs', effects := effs'\<rparr>)
      | _ \<Rightarrow> s)"

definition do_close_return :: "SQLServer \<Rightarrow> SQLServer" where
  "do_close_return s =
     (case close_pc s of
        Swept errs \<Rightarrow> s\<lparr>close_pc := CloseReturned (Collect ErrCloseServer errs)\<rparr>
      | _ \<Rightarrow> s)"

subsection \<open>The server as a transition system\<close>

text \<open>
  One step of one goroutine. The accept loop of \<^verbatim>\<open>Run\<close> takes a connection from an
  open listener, returns when \<^verbatim>\<open>Accept\<close> fails (\<^verbatim>\<open>nil\<close> for
  \<^verbatim>\<open>net.ErrClosed\<close>), or, its context being done, waits for the handlers and returns;
  an accepted connection is handed to a new goroutine. Each handler goes through
  \<^verbatim>\<open>onConn\<close>; \<^verbatim>\<open>clientConn.Run\<close> may return at any moment. \<^verbatim>\<open>Close\<close> is
  called at most once.
\<close>

inductive step :: "SQLServer \<Rightarrow> SQLServer \<Rightarrow> bool" where
  cancel: "step s (s\<lparr>ctx_done := True\<rparr>)"
| accept: "run_pc s = Accepting \<Longrightarrow> listener_open s \<Longrightarrow> step s (do_accept c s)"
| accept_closed:
    "run_pc s = Accepting \<Longrightarrow> \<not> listener_open s \<Longrightarrow> step s (s\<lparr>run_pc := RunReturned None\<rparr>)"
| accept_failed:
    "run_pc s = Accepting \<Longrightarrow> err \<noteq> ErrClosed \<Longrightarrow> step s (s\<lparr>run_pc := RunReturned (Some err)\<rparr>)"
| drain: "run_pc s = Accepting \<Longrightarrow> ctx_done s \<Longrightarrow> step s (s\<lparr>run_pc := Draining\<rparr>)"
| drained:
    "run_pc s = Draining \<Longrightarrow> wg_idle (wg s) \<Longrightarrow> step s (s\<lparr>run_pc := RunReturned None\<rparr>)"
| spawn: "run_pc s = Accepted c \<Longrightarrow> step s (do_spawn c s)"
| admit: "i < length (wg s) \<Longrightarrow> wg s ! i = Spawned c \<Longrightarrow> step s (do_admit i s)"
| leave: "i < length (wg s) \<Longrightarrow> wg s ! i = Serving cid clientConn \<Longrightarrow> step s (do_leave i s)"
| finish: "i < length (wg s) \<Longrightarrow> wg s ! i = Closing cid clientConn \<Longrightarrow> step s (do_finish i s)"
| close_listener: "close_pc s = NotCalled \<Longrightarrow> step s (do_close_listener lerr s)"
| close_sweep: "close_pc s = ListenerClosed errs \<Longrightarrow> step s (do_close_sweep cl s)"
| close_return:
    "close_pc s = Swept errs \<Longrightarrow> wg_idle (wg s) \<Longrightarrow> step s (do_close_return s)"

inductive reachable :: "SQLServer \<Rightarrow> bool" where
  init: "reachable (NewSQLServer TCPKeepAlive MaxConnections)"
| after: "reachable s \<Longrightarrow> step s s' \<Longrightarrow> reachable s'"

subsection \<open>Invariants of the reachable states\<close>

text \<open>
  The predicates that the proofs carry through the steps: the registry is within the limit;
  the counter is the number of admissions, the \<open>k\<close>-th admission got the id \<open>k\<close> (as a
  64-bit word), and every id a handler holds was handed out; no two handlers hold the same
  id, and the registry maps an id to a client connection exactly when a handler is serving
  that client connection under that id.
\<close>

definition within_limit :: "serverState \<Rightarrow> bool" where
  "within_limit st = (maxConnections st \<noteq> 0 \<longrightarrow> length (clients st) \<le> unat (maxConnections st))"

definition ids_inv :: "SQLServer \<Rightarrow> bool" where
  "ids_inv s =
     (connID (mu s) = of_nat (length (admissions s)) \<and>
      (\<forall>k < length (admissions s). fst (admissions s ! k) = of_nat k) \<and>
      (\<forall>i < length (wg s). \<forall>a. handler_id (wg s ! i) = Some a \<longrightarrow>
          (\<exists>m < length (admissions s). a = of_nat m)))"

definition unique_ids :: "handler list \<Rightarrow> bool" where
  "unique_ids hs =
     (\<forall>i < length hs. \<forall>j < length hs. \<forall>a.
        i \<noteq> j \<longrightarrow> handler_id (hs ! i) = Some a \<longrightarrow> handler_id (hs ! j) \<noteq> Some a)"

definition registry_matches :: "(64 word \<times> ClientConnection) list \<Rightarrow> handler list \<Rightarrow> bool" where
  "registry_matches cs hs =
     (\<forall>cid cc. (map_of cs cid = Some cc) = (\<exists>i < length hs. hs ! i = Serving cid cc))"

definition registry_inv :: "SQLServer \<Rightarrow> bool" where
  "registry_inv s = (unique_ids (wg s) \<and> registry_matches (clients (mu s)) (wg s))"

text \<open>
  A server with limit 1 in which one connection is registered and the handler of a second
  connection has been started.
\<close>

definition srv_full :: SQLServer where
  "srv_full =
     do_spawn (TCPConn 2) (do_accept (TCPConn 2)
       (do_admit 0 (do_spawn (TCPConn 1) (do_accept (TCPConn 1) (NewSQLServer True 1)))))"

text \<open>
  A new connection going through one turn of the accept loop and the locked block of its
  handler; and a connection that comes and goes: accepted, admitted, served, and its handler
  returned.
\<close>

definition admit_new :: "conn \<Rightarrow> SQLServer \<Rightarrow> SQLServer" where
  "admit_new c s = do_admit (length (wg s)) (do_spawn c (do_accept c s))"

definition churn_once :: "SQLServer \<Rightarrow> SQLServer" where
  "churn_once s =
     do_finish (length (wg s)) (do_leave (length (wg s)) (admit_new (OtherConn 0) s))"

fun churn :: "nat \<Rightarrow> SQLServer \<Rightarrow> SQLServer" where
  "churn 0 s = s"
| "churn (Suc n) s = churn_once (churn n s)"

text \<open>
  Two connections admitted one after the other by a server without a limit; and the same
  with \<open>2 ^ 64 - 1\<close> connections coming and going between the two.
\<close>

definition srv_two :: SQLServer where
  "srv_two = admit_new (TCPConn 2) (admit_new (TCPConn 1) (NewSQLServer False 0))"

definition srv_wrap :: SQLServer where
  "srv_wrap =
     admit_new (TCPConn 2) (churn (2 ^ 64 - 1) (admit_new (TCPConn 1) (NewSQLServer False 0)))"

text \<open>
  An admitted connection is accounted for when its handler is still serving it, or is
  between the deferred delete and its return, or its client connection has been closed.
\<close>

definition accounted :: "handler list \<Rightarrow> effect list \<Rightarrow> 64 word \<times> conn \<Rightarrow> bool" where
  "accounted hs effs p =
     ((\<exists>i < length hs. hs ! i = Serving (fst p) (NewClientConnection (snd p) (fst p)) \<or>
                       hs ! i = Closing (fst p) (NewClientConnection (snd p) (fst p))) \<or>
      ClientClose (fst p) (snd p) \<in> set effs)"

definition accounted_inv :: "SQLServer \<Rightarrow> bool" where
  "accounted_inv s = (\<forall>p \<in> set (admissions s). accounted (wg s) (effects s) p)"

text \<open>
  The server of \<open>srv_two\<close> after the handler of the first connection has returned.
\<close>

definition srv_left :: SQLServer where
  "srv_left = do_finish 0 (do_leave 0 srv_two)"

text \<open>
  A schedule of \<^verbatim>\<open>Run\<close> and \<^verbatim>\<open>Close\<close>: \<^verbatim>\<open>Accept\<close> returns a connection, then
  \<^verbatim>\<open>Close\<close> runs from its first line to its return (the wait group is empty, so
  \<^verbatim>\<open>s.wg.Wait()\<close> returns at once), then \<^verbatim>\<open>Run\<close> goes on with
  \<^verbatim>\<open>s.wg.Run\<close> and the handler is admitted.
\<close>

definition srv_race :: SQLServer where
  "srv_race =
     do_admit 0 (do_spawn (TCPConn 1)
       (do_close_return (do_close_sweep (\<lambda>clientConn. None)
          (do_close_listener None (do_accept (TCPConn 1) (NewSQLServer False 0))))))"

section \<open>The backend connection manager\<close>

text \<open>
  The package of the backend connection manager (pkg/proxy/backend) is not among the
  sources; of it there are only tests (\<^verbatim>\<open>TestTLSConnection\<close>, \<^verbatim>\<open>TestAuthPlugin\<close>,
  \<^verbatim>\<open>TestCapability\<close>, \<^verbatim>\<open>TestSecondHandshake\<close>). What follows is written from the
  spec (sections 3, 4.1, 8 and 9), and each definition says so.
\<close>

subsection \<open>Sessions\<close>

text \<open>
  Modelled from the spec: the "capability bitset" of the wire protocol, 32 flags, and the
  two "supported auth plugins", native-password and caching-sha2-password.
  \<^verbatim>\<open>ClientSSL\<close> is the TLS flag (bit 11) that \<^verbatim>\<open>TestTLSConnection\<close> sets and clears.
\<close>

type_synonym capability = "32 word"

definition ClientSSL :: capability where
  "ClientSSL = push_bit 11 1"

datatype auth_plugin = AuthNativePassword | AuthCachingSha2Password

text \<open>
  Modelled from the spec: the states of the authentication exchange, "an explicit state
  machine: AwaitingGreeting, AwaitingAuthResult, AwaitingAuthSwitch, AwaitingFastAuthResult,
  Established, Failed".
\<close>

datatype auth_state =
    AwaitingGreeting
  | AwaitingAuthResult
  | AwaitingAuthSwitch
  | AwaitingFastAuthResult
  | Established
  | Failed

text \<open>
  Modelled from the spec: the ClientSession of section 3 (connection id, negotiated client
  capability bitset, client auth-plugin name, current schema, client TLS state; its
  reference to the backend session is a field of the session below).
\<close>

record ClientSession =
  connection_id :: "64 word"
  client_capability :: capability
  client_auth_plugin :: auth_plugin
  client_schema :: string
  client_tls :: bool

text \<open>
  Modelled from the spec: the BackendSession of section 3 (physical backend socket,
  negotiated backend capability bitset, backend auth-plugin name, backend TLS state, current
  schema, redirect-in-progress flag and target address), with the state of its
  authentication exchange and the user it is authenticated as.
\<close>

record BackendSession =
  backend_socket :: nat
  backend_capability :: capability
  backend_auth_plugin :: auth_plugin
  backend_tls :: bool
  backend_schema :: string
  backend_user :: string
  backend_state :: auth_state
  redirect_in_progress :: bool
  redirect_target :: "string option"

subsection \<open>The first handshake with a backend\<close>

text \<open>
  Modelled from the spec: the backend's greeting, "version, connection id, capability
  bitset, auth-plugin, salt".
\<close>

record Greeting =
  greeting_version :: string
  greeting_connection_id :: "32 word"
  greeting_capability :: capability
  greeting_auth_plugin :: auth_plugin
  greeting_salt :: "8 word list"

text \<open>
  Modelled from the spec: what the routing policy says of a backend, the capabilities the
  proxy always offers ("policy-mandated minimum") and whether "the backend mandates TLS".
\<close>

record BackendPolicy =
  minimum_capability :: capability
  mandates_tls :: bool

text \<open>
  Modelled from the spec: the packets of the handshake ("greeting, auth-switch, command,
  OK/ERR/EOF packets") and its errors. A credential only travels inside a scramble ("salted
  scramble of the credential"), which is kept symbolic: the plugin, the salt and the
  credential it was made from.
\<close>

datatype scramble = Scramble auth_plugin "8 word list" string

datatype to_backend =
    HandshakeResponse capability auth_plugin scramble string string
  | AuthSwitchResponse scramble
  | OtherPacket "8 word list"

datatype from_backend =
    GreetingPacket Greeting
  | OKPacket
  | ERRPacket string
  | AuthPacket "8 word list"

fun carries_credential :: "to_backend \<Rightarrow> bool" where
  "carries_credential (HandshakeResponse cap plugin scr user db) = True"
| "carries_credential (AuthSwitchResponse scr) = True"
| "carries_credential (OtherPacket bs) = False"

datatype handshake_error = ErrTLSRequired | ErrProtocol | ErrBackend string

text \<open>
  Modelled from the spec: the handshake in progress, that is its state, the capability set
  and the plugin negotiated, the packets sent to the backend so far and the error it failed
  with.
\<close>

record Handshake =
  hs_state :: auth_state
  hs_capability :: capability
  hs_plugin :: "auth_plugin option"
  hs_sent :: "to_backend list"
  hs_error :: "handshake_error option"

definition new_handshake :: Handshake where
  "new_handshake =
     \<lparr>hs_state = AwaitingGreeting, hs_capability = 0, hs_plugin = None, hs_sent = [],
      hs_error = None\<rparr>"

definition fail_handshake :: "handshake_error \<Rightarrow> Handshake \<Rightarrow> Handshake" where
  "fail_handshake e h = h\<lparr>hs_state := Failed, hs_error := Some e\<rparr>"

text \<open>
  Modelled from the spec: "Compute the capability set to offer as: policy-mandated minimum,
  unioned with what the client offered, intersected with what the backend advertises."
\<close>

definition offered_capability :: "BackendPolicy \<Rightarrow> ClientSession \<Rightarrow> Greeting \<Rightarrow> capability" where
  "offered_capability pol cs g =
     (minimum_capability pol OR client_capability cs) AND greeting_capability g"

text \<open>
  Modelled from the spec: the step on the greeting. "If the backend mandates TLS and the
  client-facing session never completed TLS, fail immediately with a TLS-required error
  before sending any credential bytes"; otherwise "send the handshake response using the
  backend's requested plugin".
\<close>

definition on_greeting ::
  "BackendPolicy \<Rightarrow> ClientSession \<Rightarrow> string \<Rightarrow> string \<Rightarrow> Greeting \<Rightarrow> Handshake \<Rightarrow> Handshake" where
  "on_greeting pol cs user credential g h =
     (if mandates_tls pol \<and> \<not> client_tls cs then fail_handshake ErrTLSRequired h
      else
        h\<lparr>hs_state := AwaitingAuthResult,
          hs_capability := offered_capability pol cs g,
          hs_plugin := Some (greeting_auth_plugin g),
          hs_sent := hs_sent h @
            [HandshakeResponse (offered_capability pol cs g) (greeting_auth_plugin g)
               (Scramble (greeting_auth_plugin g) (greeting_salt g) credential)
               user (client_schema cs)]\<rparr>)"

text \<open>
  Modelled from the spec: one packet from the backend. In \<open>AwaitingGreeting\<close> only a
  greeting is legal ("illegal transitions treated as protocol errors"); \<open>Established\<close> and
  \<open>Failed\<close> end the handshake. The exchange after the handshake response is not needed
  below and is a parameter, \<open>exchange\<close>.
\<close>

definition handshake_step ::
  "(Handshake \<Rightarrow> from_backend \<Rightarrow> Handshake) \<Rightarrow> BackendPolicy \<Rightarrow> ClientSession \<Rightarrow> string \<Rightarrow>
   string \<Rightarrow> Handshake \<Rightarrow> from_backend \<Rightarrow> Handshake" where
  "handshake_step exchange pol cs user credential h pkt =
     (case hs_state h of
        AwaitingGreeting \<Rightarrow>
          (case pkt of
             GreetingPacket g \<Rightarrow> on_greeting pol cs user credential g h
           | _ \<Rightarrow> fail_handshake ErrProtocol h)
      | Established \<Rightarrow> h
      | Failed \<Rightarrow> h
      | _ \<Rightarrow> exchange h pkt)"

fun run_handshake ::
  "(Handshake \<Rightarrow> from_backend \<Rightarrow> Handshake) \<Rightarrow> BackendPolicy \<Rightarrow> ClientSession \<Rightarrow> string \<Rightarrow>
   string \<Rightarrow> Handshake \<Rightarrow> from_backend list \<Rightarrow> Handshake" where
  "run_handshake exchange pol cs user credential h [] = h"
| "run_handshake exchange pol cs user credential h (pkt # pkts) =
     run_handshake exchange pol cs user credential
       (handshake_step exchange pol cs user credential h pkt) pkts"

text \<open>Concrete inputs: a client session without TLS and a backend that mandates it.\<close>

definition plain_client :: ClientSession where
  "plain_client =
     \<lparr>connection_id = 7, client_capability = 0xA285, client_auth_plugin = AuthNativePassword,
      client_schema = ''test'', client_tls = False\<rparr>"

definition tls_greeting :: Greeting where
  "tls_greeting =
     \<lparr>greeting_version = ''8.0.11'', greeting_connection_id = 1,
      greeting_capability = 0xFFFF, greeting_auth_plugin = AuthCachingSha2Password,
      greeting_salt = [1, 2, 3, 4]\<rparr>"

definition tls_policy :: BackendPolicy where
  "tls_policy = \<lparr>minimum_capability = ClientSSL, mandates_tls = True\<rparr>"

subsection \<open>An established session: commands, second handshake, redirection\<close>

text \<open>
  Modelled from the spec: the commands of a client, as far as the proxy tells them apart
  ("SQL parsing beyond detecting protocol-significant commands" is a non-goal): the two that
  change the identity or the schema (\<^verbatim>\<open>COM_CHANGE_USER\<close> and \<^verbatim>\<open>COM_INIT_DB\<close> in
  \<^verbatim>\<open>TestSecondHandshake\<close>), the quit command, and everything else; how the backend ends
  an exchange; and the packets written to the client.
\<close>

datatype command =
    ComChangeUser string string
  | ComInitDB string
  | ComQuit
  | ComOther "8 word list"

fun changes_identity_or_schema :: "command \<Rightarrow> bool" where
  "changes_identity_or_schema (ComChangeUser u db) = True"
| "changes_identity_or_schema (ComInitDB db) = True"
| "changes_identity_or_schema ComQuit = False"
| "changes_identity_or_schema (ComOther bs) = False"

datatype backend_reply = ReplyOK | ReplyERR string

datatype client_packet = ClientOK | ClientERR string | ClientData "8 word list"

text \<open>
  Modelled from the spec: a session after both handshakes. Beside the two sessions of
  section 3 it records what the proxy did: the addresses it opened a socket to, the backend
  sockets it closed, the commands it wrote to a backend socket, the packets it wrote to the
  client, the outcomes it reported to the callers of a redirection, and how many
  redirections of this session were started and finished.
\<close>

record Session =
  client :: ClientSession
  backend :: BackendSession
  client_open :: bool
  command_in_flight :: bool
  dialled :: "string list"
  closed_sockets :: "nat list"
  written :: "(nat \<times> command) list"
  to_client :: "client_packet list"
  reports :: "(string \<times> string option) list"
  redirects_started :: nat
  redirects_finished :: nat

definition new_session :: "ClientSession \<Rightarrow> BackendSession \<Rightarrow> string \<Rightarrow> Session" where
  "new_session cs bs addr =
     \<lparr>client = cs,
      backend = bs\<lparr>backend_state := Established, redirect_in_progress := False,
                  redirect_target := None\<rparr>,
      client_open = True, command_in_flight = False, dialled = [addr], closed_sockets = [],
      written = [], to_client = [], reports = [], redirects_started = 0,
      redirects_finished = 0\<rparr>"

fun new_user :: "command \<Rightarrow> string \<Rightarrow> string" where
  "new_user (ComChangeUser u db) old = u"
| "new_user cmd old = old"

fun new_schema :: "command \<Rightarrow> string \<Rightarrow> string" where
  "new_schema (ComChangeUser u db) old = db"
| "new_schema (ComInitDB db) old = db"
| "new_schema cmd old = old"

text \<open>
  Modelled from the spec: the second handshake. "On a client command that changes identity
  or schema, re-run the relevant handshake subset against the same physical backend
  connection with the new user/db, instead of opening a new socket. A failure here is
  surfaced to the client as a protocol error; the BackendSession is left in Failed (no
  automatic rollback to the prior identity)"; the design notes add "surfaced error,
  connection stays open, backend session failed". \<open>rep\<close> is how the backend ends the
  exchange.
\<close>

definition second_handshake :: "command \<Rightarrow> backend_reply \<Rightarrow> Session \<Rightarrow> Session" where
  "second_handshake cmd rep s =
     (let s1 = s\<lparr>written := written s @ [(backend_socket (backend s), cmd)]\<rparr>
      in case rep of
           ReplyOK \<Rightarrow>
             s1\<lparr>backend := (backend s)
                   \<lparr>backend_user := new_user cmd (backend_user (backend s)),
                    backend_schema := new_schema cmd (backend_schema (backend s)),
                    backend_state := Established\<rparr>,
                client := (client s)\<lparr>client_schema := new_schema cmd (client_schema (client s))\<rparr>,
                to_client := to_client s @ [ClientOK]\<rparr>
         | ReplyERR e \<Rightarrow>
             s1\<lparr>backend := (backend s)\<lparr>backend_state := Failed\<rparr>,
                to_client := to_client s @ [ClientERR e]\<rparr>)"

text \<open>
  Modelled from the spec: redirection. A redirection starts when none is in progress and
  no command is in flight ("request is deferred until any in-flight command's response has
  been fully relayed"): the flag and the target are set and a socket to the target is
  opened. It finishes with the outcome of the handshake on the new socket: "on handshake
  failure: abort, keep the existing BackendSession, report failure to the caller, leave
  ClientSession untouched"; "on success: atomically replace the BackendSession reference,
  then close the old backend socket".
\<close>

definition redirect_start :: "string \<Rightarrow> Session \<Rightarrow> Session" where
  "redirect_start tgt s =
     s\<lparr>backend := (backend s)\<lparr>redirect_in_progress := True, redirect_target := Some tgt\<rparr>,
       dialled := dialled s @ [tgt],
       redirects_started := Suc (redirects_started s)\<rparr>"

definition redirect_finish :: "string + BackendSession \<Rightarrow> Session \<Rightarrow> Session" where
  "redirect_finish outcome s =
     (case redirect_target (backend s) of
        None \<Rightarrow> s
      | Some tgt \<Rightarrow>
          (case outcome of
             Inl err \<Rightarrow>
               s\<lparr>backend := (backend s)\<lparr>redirect_in_progress := False, redirect_target := None\<rparr>,
                 reports := reports s @ [(tgt, Some err)],
                 redirects_finished := Suc (redirects_finished s)\<rparr>
           | Inr bs \<Rightarrow>
               s\<lparr>backend := bs\<lparr>backend_state := Established, redirect_in_progress := False,
                              redirect_target := None\<rparr>,
                 closed_sockets := closed_sockets s @ [backend_socket (backend s)],
                 reports := reports s @ [(tgt, None)],
                 redirects_finished := Suc (redirects_finished s)\<rparr>))"

text \<open>
  Modelled from the spec: what can happen to a session, one event at a time. Commands are
  relayed in sequence ("request then response"); the dial and handshake of a redirection
  overlap with them.
\<close>

inductive session_step :: "Session \<Rightarrow> Session \<Rightarrow> bool" where
  command:
    "\<not> command_in_flight s \<Longrightarrow> \<not> changes_identity_or_schema cmd \<Longrightarrow>
     session_step s
       (s\<lparr>command_in_flight := True, written := written s @ [(backend_socket (backend s), cmd)]\<rparr>)"
| response:
    "command_in_flight s \<Longrightarrow>
     session_step s (s\<lparr>command_in_flight := False, to_client := to_client s @ [pkt]\<rparr>)"
| rehandshake:
    "\<not> command_in_flight s \<Longrightarrow> changes_identity_or_schema cmd \<Longrightarrow>
     session_step s (second_handshake cmd rep s)"
| redirect:
    "\<not> redirect_in_progress (backend s) \<Longrightarrow> \<not> command_in_flight s \<Longrightarrow>
     session_step s (redirect_start tgt s)"
| redirected:
    "redirect_in_progress (backend s) \<Longrightarrow> session_step s (redirect_finish outcome s)"

inductive session_reachable :: "Session \<Rightarrow> bool" where
  fresh: "session_reachable (new_session cs bs addr)"
| later: "session_reachable s \<Longrightarrow> session_step s s' \<Longrightarrow> session_reachable s'"

text \<open>An established session, for the examples.\<close>

definition some_backend :: BackendSession where
  "some_backend =
     \<lparr>backend_socket = 3, backend_capability = 0xA285, backend_auth_plugin = AuthNativePassword,
      backend_tls = True, backend_schema = ''test'', backend_user = ''root'',
      backend_state = Established, redirect_in_progress = False, redirect_target = None\<rparr>"

definition some_session :: Session where
  "some_session = new_session plain_client some_backend ''10.0.0.1:4000''"

definition redirect_inv :: "Session \<Rightarrow> bool" where
  "redirect_inv s =
     (redirects_started s =
        redirects_finished s + (if redirect_in_progress (backend s) then 1 else 0) \<and>
      redirect_in_progress (backend s) = (redirect_target (backend s) \<noteq> None))"

chapter \<open>Properties\<close>

section \<open>The administrative HTTP surface\<close>

lemma http_status_JSON: "http_status (JSON st obj) = st"
  by (simp add: JSON_def)

lemma json_body_JSON: "json_body (JSON st obj) = Some obj"
  by (simp add: JSON_def)

lemma admin_handlers_status:
  fixes n :: "('m, 'cfg, 'e) collaborators"
  shows "http_status (fst (route_handler r n c m)) = StatusOK"
  by (cases r)
     (auto simp: HandleRemoveNamespace_def HandlePrepareReload_def HandleCommitReload_def
        Redirect_def JSON_def Let_def split: sum.splits prod.splits option.splits)

text \<open>
  C8. Every response of the three namespace handlers and of the test redirect handler is
  written with \<^verbatim>\<open>c.JSON(http.StatusOK, ...)\<close>: the HTTP status is 200 in every
  branch, the body is a \<^verbatim>\<open>CommonJsonResp\<close>, and the outcome is in its code only: 200
  (and then the body is exactly code 200 with msg "success") when the operation succeeded,
  400 exactly when the namespace parameter is empty, 500 otherwise.
\<close>

theorem admin_handlers_http_200:
  fixes n :: "('m, 'cfg, 'e) collaborators"
  shows
    "http_status (fst (route_handler r n c m)) = StatusOK \<and>
     (\<exists>b. json_body (fst (route_handler r n c m)) = Some b \<and>
        (Code b = StatusOK \<or> Code b = StatusBadRequest \<or> Code b = StatusInternalServerError) \<and>
        (Code b = StatusOK) = (b = \<lparr>Code = 200, Msg = ''success''\<rparr>) \<and>
        (Code b = StatusOK) = operation_succeeds r n c m \<and>
        (Code b = StatusBadRequest) = (r \<noteq> RouteTestRedirect \<and> Param c ParamNamespace = []))"
  by (cases r)
     (auto simp: HandleRemoveNamespace_def HandlePrepareReload_def HandleCommitReload_def
        Redirect_def JSON_def CreateJsonResp_def CreateSuccessJsonResp_def Let_def
        StatusOK_def StatusBadRequest_def StatusInternalServerError_def
        split: sum.splits prod.splits option.splits)

theorem admin_handlers_http_200_witness:
  "http_status (fst (route_handler RoutePrepareReload failing_ops (req_ns ''tenant'') 0)) = 200 \<and>
   json_body (fst (route_handler RoutePrepareReload failing_ops (req_ns ''tenant'') 0)) =
     Some \<lparr>Code = 500, Msg = ''prepare reload namespace error''\<rparr> \<and>
   \<not> operation_succeeds RoutePrepareReload failing_ops (req_ns ''tenant'') 0"
  using admin_handlers_http_200 [of RoutePrepareReload failing_ops "req_ns ''tenant''" 0]
  by (simp add: HandlePrepareReload_def failing_ops_def req_ns_def Param_def ParamNamespace_def
        JSON_def CreateJsonResp_def StatusOK_def StatusInternalServerError_def)

lemma run_chain_no_auth_check:
  "\<forall>mw \<in> set mws. \<not> is_auth_check mw \<Longrightarrow> run_chain mws c = None"
proof (induction mws)
  case Nil
  show ?case by simp
next
  case (Cons mw mws)
  then show ?case by (cases mw) simp_all
qed

lemma Handlers_namespaceRouteGroup:
  "Handlers (namespaceRouteGroup cfg) =
     (if User cfg \<noteq> [] \<and> Password cfg \<noteq> []
      then [Recovery, BasicAuth [(User cfg, Password cfg)]] else [Recovery])"
  by (simp add: namespaceRouteGroup_def wrapBasicAuthGinMiddleware_def Group_def engine_def
        Use_def Let_def)

text \<open>
  C9. \<^verbatim>\<open>wrapBasicAuthGinMiddleware\<close> installs \<^verbatim>\<open>gin.BasicAuth\<close> on the namespace
  group exactly when the configured user and the configured password are both non-empty.
  When either is empty the group's chain holds no authentication check, a request to any
  of the namespace endpoints reaches its handler whatever credentials it carries, and the
  answer is never HTTP 401.
\<close>

theorem basic_auth_needs_user_and_password:
  fixes n :: "('m, 'cfg, 'e) collaborators"
  shows
    "(\<exists>mw \<in> set (Handlers (namespaceRouteGroup cfg)). is_auth_check mw) =
       (User cfg \<noteq> [] \<and> Password cfg \<noteq> []) \<and>
     (User cfg = [] \<or> Password cfg = [] \<longrightarrow>
        (\<forall>r \<in> set namespace_routes.
           serve (namespaceRouteGroup cfg) (route_handler r n) c m = route_handler r n c m \<and>
           http_status (fst (serve (namespaceRouteGroup cfg) (route_handler r n) c m))
             \<noteq> StatusUnauthorized))"
proof -
  have installed:
    "(\<exists>mw \<in> set (Handlers (namespaceRouteGroup cfg)). is_auth_check mw) =
       (User cfg \<noteq> [] \<and> Password cfg \<noteq> [])"
    by (simp add: Handlers_namespaceRouteGroup)
  have served:
    "serve (namespaceRouteGroup cfg) (route_handler r n) c m = route_handler r n c m \<and>
     http_status (fst (serve (namespaceRouteGroup cfg) (route_handler r n) c m))
       \<noteq> StatusUnauthorized"
    if empty: "User cfg = [] \<or> Password cfg = []" for r
  proof -
    from empty have "\<forall>mw \<in> set (Handlers (namespaceRouteGroup cfg)). \<not> is_auth_check mw"
      by (auto simp: Handlers_namespaceRouteGroup)
    then have "run_chain (Handlers (namespaceRouteGroup cfg)) c = None"
      by (rule run_chain_no_auth_check)
    then have same: "serve (namespaceRouteGroup cfg) (route_handler r n) c m = route_handler r n c m"
      by (simp add: serve_def)
    have "http_status (fst (route_handler r n c m)) = StatusOK"
      using admin_handlers_status [of r n c m] .
    with same show ?thesis
      by (simp add: StatusOK_def StatusUnauthorized_def)
  qed
  from installed served show ?thesis by blast
qed

theorem basic_auth_needs_user_and_password_witness:
  "(User cfg_no_password = [] \<or> Password cfg_no_password = []) \<and>
   RouteCommitReload \<in> set namespace_routes \<and>
   \<not> (\<exists>mw \<in> set (Handlers (namespaceRouteGroup cfg_no_password)). is_auth_check mw) \<and>
   serve (namespaceRouteGroup cfg_no_password) (route_handler RouteCommitReload failing_ops)
       (req_ns ''tenant'') 0 =
     (\<lparr>http_status = 200, json_body = Some \<lparr>Code = 200, Msg = ''success''\<rparr>\<rparr>, 1)"
  using basic_auth_needs_user_and_password [of cfg_no_password failing_ops "req_ns ''tenant''" 0]
  by (simp add: cfg_no_password_def namespace_routes_def HandleCommitReload_def failing_ops_def
        req_ns_def Param_def ParamNamespace_def JSON_def CreateSuccessJsonResp_def StatusOK_def)

text \<open>
  With both fields set the check is there: a request without credentials is stopped with
  401 before any handler runs.
\<close>

lemma basic_auth_installed_rejects:
  "User cfg \<noteq> [] \<Longrightarrow> Password cfg \<noteq> [] \<Longrightarrow> credentials c = None \<Longrightarrow>
   serve (namespaceRouteGroup cfg) h c m = (\<lparr>http_status = 401, json_body = None\<rparr>, m)"
  by (simp add: serve_def Handlers_namespaceRouteGroup StatusUnauthorized_def)

section \<open>The SQL server\<close>

text \<open>
  The registry stays within the limit: a step changes the locked state only through the
  locked block of \<^verbatim>\<open>onConn\<close> or through the deferred delete.
\<close>

lemma length_update_le: "length (AList.update k v al) \<le> Suc (length al)"
  by (induction al) auto

lemma length_delete_le: "length (AList.delete k al) \<le> length al"
  by (simp add: AList.delete_eq)

lemma step_mu:
  assumes "step s s'"
  shows "mu s' = mu s \<or> (\<exists>c a. onConn_locked c (mu s) = (a, mu s')) \<or>
         (\<exists>cid. mu s' = onConn_deferred cid (mu s))"
  using assms
  by (cases rule: step.cases)
     (auto simp: do_accept_def do_spawn_def do_admit_def do_leave_def do_finish_def
        do_close_listener_def do_close_sweep_def do_close_return_def
        split: handler.splits prod.splits admission.splits close_state.splits)

lemma onConn_locked_within_limit:
  assumes "within_limit st" "onConn_locked c st = (a, st')"
  shows "within_limit st' \<and> maxConnections st' = maxConnections st"
proof (cases "maxConnections st \<noteq> 0 \<and> maxConnections st \<le> of_nat (length (clients st))")
  case True
  with assms show ?thesis by (auto simp: onConn_locked_def Let_def)
next
  case False
  then have st': "st' = st\<lparr>connID := connID st + 1,
       clients := AList.update (connID st) (NewClientConnection c (connID st)) (clients st)\<rparr>"
    using assms(2) by (auto simp: onConn_locked_def Let_def)
  show ?thesis
  proof (cases "maxConnections st = 0")
    case True
    then show ?thesis by (simp add: st' within_limit_def)
  next
    case nz: False
    with assms(1) have le: "length (clients st) \<le> unat (maxConnections st)"
      by (simp add: within_limit_def)
    have "unat (maxConnections st) < 2 ^ 64"
      using unsigned_less [of "maxConnections st", where ?'a = nat] by simp
    with le have "unat (of_nat (length (clients st)) :: 64 word) = length (clients st)"
      by (intro of_nat_inverse [OF refl]) simp
    moreover from False nz have "(of_nat (length (clients st)) :: 64 word) < maxConnections st"
      by simp
    ultimately have "length (clients st) < unat (maxConnections st)"
      by (simp add: word_less_nat_alt)
    then show ?thesis
      using length_update_le [of "connID st" "NewClientConnection c (connID st)" "clients st"]
      by (simp add: st' within_limit_def)
  qed
qed

lemma onConn_deferred_within_limit:
  "within_limit st \<Longrightarrow> within_limit (onConn_deferred cid st) \<and>
     maxConnections (onConn_deferred cid st) = maxConnections st"
  using length_delete_le [of cid "clients st"]
  by (auto simp: within_limit_def onConn_deferred_def)

lemma reachable_within_limit: "reachable s \<Longrightarrow> within_limit (mu s)"
proof (induction rule: reachable.induct)
  case (init ka mc)
  show ?case by (simp add: NewSQLServer_def within_limit_def)
next
  case (after s s')
  from step_mu [OF after.hyps(2)] after.IH show ?case
    by (auto dest: onConn_locked_within_limit simp: onConn_deferred_within_limit)
qed

text \<open>
  The ids that were handed out: the counter counts the admissions.
\<close>

lemmas do_defs = do_accept_def do_spawn_def do_admit_def do_leave_def do_finish_def
  do_close_listener_def do_close_sweep_def do_close_return_def wg_Run_def

lemma close_clients_effects_mono:
  "set effs \<subseteq> set (snd (close_clients cl cs (errs, effs)))"
proof (induction cs arbitrary: errs effs)
  case Nil
  show ?case by simp
next
  case (Cons x cs)
  obtain cid cc where x: "x = (cid, cc)" by (cases x)
  show ?case
    using Cons.IH [of "effs @ [ClientClose cid (cc_conn cc)]"]
    by (cases "cl cc") (auto simp: x)
qed

lemma onConn_locked_cases:
  "onConn_locked c st = (Rejected, st) \<or>
   onConn_locked c st =
     (Admitted (connID st) (NewClientConnection c (connID st)),
      st\<lparr>connID := connID st + 1,
         clients := AList.update (connID st) (NewClientConnection c (connID st)) (clients st)\<rparr>)"
  by (simp add: onConn_locked_def Let_def)

lemma admit_ids_inv:
  assumes inv: "ids_inv s" and i: "i < length (wg s)" and sp: "wg s ! i = Spawned c"
  shows "ids_inv (do_admit i s)"
proof -
  let ?N = "length (admissions s)"
  let ?k = "connID (mu s)"
  from inv have k: "?k = of_nat ?N"
    and adm: "\<forall>k < ?N. fst (admissions s ! k) = of_nat k"
    and hs: "\<forall>i < length (wg s). \<forall>a. handler_id (wg s ! i) = Some a \<longrightarrow>
          (\<exists>m < ?N. a = of_nat m)"
    by (simp_all add: ids_inv_def)
  from onConn_locked_cases [of c "mu s"] show ?thesis
  proof
    assume "onConn_locked c (mu s) = (Rejected, mu s)"
    then have s': "do_admit i s = s\<lparr>mu := mu s, wg := (wg s)[i := Exited],
        effects := effects s @ [ConnClose c]\<rparr>"
      by (simp add: do_admit_def sp)
    show ?thesis
      unfolding s' ids_inv_def using k adm hs i
      by (auto simp: nth_list_update split: if_splits)
  next
    assume "onConn_locked c (mu s) =
     (Admitted ?k (NewClientConnection c ?k),
      (mu s)\<lparr>connID := ?k + 1,
         clients := AList.update ?k (NewClientConnection c ?k) (clients (mu s))\<rparr>)"
    then have s': "do_admit i s = s\<lparr>mu := (mu s)\<lparr>connID := ?k + 1,
         clients := AList.update ?k (NewClientConnection c ?k) (clients (mu s))\<rparr>,
        wg := (wg s)[i := Serving ?k (NewClientConnection c ?k)],
        effects := effects s @ onConn_body (tcpKeepAlive (mu s)) ?k c,
        admissions := admissions s @ [(?k, c)]\<rparr>"
      by (simp add: do_admit_def sp)
    have 1: "connID (mu (do_admit i s)) = of_nat (length (admissions (do_admit i s)))"
      by (simp add: s' k)
    have 2: "\<forall>j < length (admissions (do_admit i s)).
        fst (admissions (do_admit i s) ! j) = of_nat j"
      using adm k by (auto simp: s' nth_append less_Suc_eq)
    have 3: "\<exists>m < length (admissions (do_admit i s)). a = of_nat m"
      if "j < length (wg (do_admit i s))" "handler_id (wg (do_admit i s) ! j) = Some a" for j a
    proof (cases "j = i")
      case True
      with that i have "a = of_nat ?N" by (simp add: s' k)
      then show ?thesis by (auto simp: s')
    next
      case False
      with that have "j < length (wg s)" "handler_id (wg s ! j) = Some a"
        by (simp_all add: s')
      with hs obtain m where "m < ?N" "a = of_nat m" by blast
      then show ?thesis by (auto simp: s' intro: less_SucI)
    qed
    from 1 2 3 show ?thesis unfolding ids_inv_def by blast
  qed
qed

lemma step_ids_inv:
  assumes "step s s'" "ids_inv s"
  shows "ids_inv s'"
  using assms
proof (cases rule: step.cases)
  case (admit i c)
  then show ?thesis using assms(2) by (simp add: admit_ids_inv)
next
  case (leave i cid cc)
  then show ?thesis using assms(2)
    by (auto simp: do_defs ids_inv_def onConn_deferred_def nth_list_update split: if_splits)
next
  case (finish i cid cc)
  then show ?thesis using assms(2)
    by (auto simp: do_defs ids_inv_def nth_list_update split: if_splits)
next
  case (close_sweep errs cl)
  then show ?thesis using assms(2)
    by (auto simp: do_defs ids_inv_def split: prod.splits)
qed (use assms(2) in \<open>auto simp: do_defs ids_inv_def nth_append\<close>)

lemma reachable_ids_inv: "reachable s \<Longrightarrow> ids_inv s"
proof (induction rule: reachable.induct)
  case (init ka mc)
  show ?case by (simp add: NewSQLServer_def ids_inv_def)
next
  case (after s s')
  then show ?case by (simp add: step_ids_inv)
qed

text \<open>
  Below \<open>2 ^ 64\<close> the conversion to a 64-bit word loses nothing, so the value of the counter
  is an id no handler holds.
\<close>

lemma unat_of_nat_64: "n < 2 ^ 64 \<Longrightarrow> unat (of_nat n :: 64 word) = n"
  by (simp add: unat_of_nat)

lemma of_nat_inj_64:
  assumes "m < 2 ^ 64" "n < 2 ^ 64" "(of_nat m :: 64 word) = of_nat n"
  shows "m = n"
proof -
  have "m = unat (of_nat m :: 64 word)"
    by (rule unat_of_nat_64 [OF assms(1), symmetric])
  also have "\<dots> = unat (of_nat n :: 64 word)"
    by (simp only: assms(3))
  also have "\<dots> = n"
    by (rule unat_of_nat_64 [OF assms(2)])
  finally show ?thesis .
qed

lemma fresh_id:
  assumes "ids_inv s" "length (admissions s) < 2 ^ 64" "j < length (wg s)"
  shows "handler_id (wg s ! j) \<noteq> Some (connID (mu s))"
proof
  assume h: "handler_id (wg s ! j) = Some (connID (mu s))"
  from assms(1) have hs: "\<forall>i < length (wg s). \<forall>a. handler_id (wg s ! i) = Some a \<longrightarrow>
          (\<exists>m < length (admissions s). a = of_nat m)"
    and k: "connID (mu s) = of_nat (length (admissions s))"
    unfolding ids_inv_def by blast+
  from hs assms(3) h obtain m where m: "m < length (admissions s)" "connID (mu s) = of_nat m"
    by blast
  from m(1) assms(2) have mlt: "m < 2 ^ 64" by (rule less_trans)
  from m(2) k have eq: "(of_nat m :: 64 word) = of_nat (length (admissions s))"
    by (rule trans [OF sym])
  have "m = length (admissions s)"
    by (rule of_nat_inj_64 [OF mlt assms(2) eq])
  with m(1) show False by simp
qed

text \<open>
  How one step of a handler changes the two halves of the registry invariant.
\<close>

lemma unique_idsD:
  "unique_ids hs \<Longrightarrow> i < length hs \<Longrightarrow> j < length hs \<Longrightarrow> i \<noteq> j \<Longrightarrow>
   handler_id (hs ! i) = Some a \<Longrightarrow> handler_id (hs ! j) \<noteq> Some a"
  unfolding unique_ids_def by blast

lemma unique_ids_update_None:
  assumes "unique_ids hs" "handler_id h = None"
  shows "unique_ids (hs[i := h])"
  unfolding unique_ids_def
proof (intro allI impI)
  fix p q a
  assume p: "p < length (hs[i := h])" and q: "q < length (hs[i := h])" and ne: "p \<noteq> q"
    and hp: "handler_id (hs[i := h] ! p) = Some a"
  from hp assms(2) p have pi: "p \<noteq> i" by (auto simp: nth_list_update split: if_splits)
  with hp have hp': "handler_id (hs ! p) = Some a" by simp
  show "handler_id (hs[i := h] ! q) \<noteq> Some a"
  proof (cases "q = i")
    case True
    with q assms(2) show ?thesis by simp
  next
    case False
    with assms(1) p q ne hp' show ?thesis by (simp add: unique_ids_def)
  qed
qed

lemma unique_ids_update_same:
  assumes "unique_ids hs" "i < length hs" "handler_id h = handler_id (hs ! i)"
  shows "unique_ids (hs[i := h])"
proof -
  have "handler_id (hs[i := h] ! p) = handler_id (hs ! p)" if "p < length hs" for p
    using that assms(2,3) by (cases "p = i") simp_all
  with assms(1) show ?thesis by (simp add: unique_ids_def)
qed

lemma unique_ids_update_fresh:
  assumes "unique_ids hs" "\<forall>j < length hs. handler_id (hs ! j) \<noteq> Some k"
    "handler_id h = Some k"
  shows "unique_ids (hs[i := h])"
  unfolding unique_ids_def
proof (intro allI impI)
  fix p q a
  assume p: "p < length (hs[i := h])" and q: "q < length (hs[i := h])" and ne: "p \<noteq> q"
    and hp: "handler_id (hs[i := h] ! p) = Some a"
  show "handler_id (hs[i := h] ! q) \<noteq> Some a"
  proof (cases "p = i")
    case True
    with hp p assms(3) have "a = k" by simp
    moreover from True ne have "hs[i := h] ! q = hs ! q" by simp
    ultimately show ?thesis using assms(2) q by simp
  next
    case pi: False
    with hp have hp': "handler_id (hs ! p) = Some a" by simp
    show ?thesis
    proof (cases "q = i")
      case True
      with q assms(3) have "handler_id (hs[i := h] ! q) = Some k" by simp
      moreover from assms(2) p hp' have "a \<noteq> k" by auto
      ultimately show ?thesis by simp
    next
      case False
      with assms(1) p q ne hp' show ?thesis by (simp add: unique_ids_def)
    qed
  qed
qed

lemma unique_ids_append:
  assumes "unique_ids hs" "handler_id h = None"
  shows "unique_ids (hs @ [h])"
  unfolding unique_ids_def
proof (intro allI impI)
  fix p q a
  assume p: "p < length (hs @ [h])" and q: "q < length (hs @ [h])" and ne: "p \<noteq> q"
    and hp: "handler_id ((hs @ [h]) ! p) = Some a"
  have pl: "p < length hs"
  proof (rule ccontr)
    assume "\<not> p < length hs"
    with p have "p = length hs" by simp
    with hp assms(2) show False by simp
  qed
  with hp have hp': "handler_id (hs ! p) = Some a" by (simp add: nth_append)
  show "handler_id ((hs @ [h]) ! q) \<noteq> Some a"
  proof (cases "q < length hs")
    case True
    with assms(1) pl ne hp' show ?thesis by (simp add: unique_ids_def nth_append)
  next
    case False
    with q have "q = length hs" by simp
    with assms(2) show ?thesis by simp
  qed
qed

lemma ex_Serving_update_other:
  assumes "i < length hs" "\<forall>cid cc. hs ! i \<noteq> Serving cid cc" "\<forall>cid cc. h \<noteq> Serving cid cc"
  shows "(\<exists>j < length (hs[i := h]). hs[i := h] ! j = Serving cid cc) =
         (\<exists>j < length hs. hs ! j = Serving cid cc)"
proof
  assume "\<exists>j < length (hs[i := h]). hs[i := h] ! j = Serving cid cc"
  then obtain j where j: "j < length hs" "hs[i := h] ! j = Serving cid cc" by auto
  have "j \<noteq> i"
  proof
    assume "j = i"
    with j assms(1) have "h = Serving cid cc" by simp
    with assms(3) show False by simp
  qed
  with j have "hs ! j = Serving cid cc" by simp
  with j(1) show "\<exists>j < length hs. hs ! j = Serving cid cc" by blast
next
  assume "\<exists>j < length hs. hs ! j = Serving cid cc"
  then obtain j where j: "j < length hs" "hs ! j = Serving cid cc" by auto
  have "j \<noteq> i"
  proof
    assume "j = i"
    with j assms(2) show False by simp
  qed
  with j have "hs[i := h] ! j = Serving cid cc" by simp
  with j(1) show "\<exists>j < length (hs[i := h]). hs[i := h] ! j = Serving cid cc" by auto
qed

lemma registry_matches_update_other:
  assumes "registry_matches cs hs" "i < length hs"
    "\<forall>cid cc. hs ! i \<noteq> Serving cid cc" "\<forall>cid cc. h \<noteq> Serving cid cc"
  shows "registry_matches cs (hs[i := h])"
  unfolding registry_matches_def
proof (intro allI)
  fix cid cc
  have "(map_of cs cid = Some cc) = (\<exists>j < length hs. hs ! j = Serving cid cc)"
    using assms(1) by (simp add: registry_matches_def)
  also have "\<dots> = (\<exists>j < length (hs[i := h]). hs[i := h] ! j = Serving cid cc)"
    by (rule ex_Serving_update_other [OF assms(2,3,4), symmetric])
  finally show "(map_of cs cid = Some cc) =
      (\<exists>j < length (hs[i := h]). hs[i := h] ! j = Serving cid cc)" .
qed

lemma ex_Serving_append:
  assumes "\<forall>cid cc. h \<noteq> Serving cid cc"
  shows "(\<exists>j < length (hs @ [h]). (hs @ [h]) ! j = Serving cid cc) =
         (\<exists>j < length hs. hs ! j = Serving cid cc)"
proof
  assume "\<exists>j < length (hs @ [h]). (hs @ [h]) ! j = Serving cid cc"
  then obtain j where j: "j < length (hs @ [h])" "(hs @ [h]) ! j = Serving cid cc" by blast
  have jl: "j < length hs"
  proof (rule ccontr)
    assume "\<not> j < length hs"
    with j(1) have "j = length hs" by simp
    with j(2) assms show False by simp
  qed
  with j(2) have "hs ! j = Serving cid cc" by (simp add: nth_append)
  with jl show "\<exists>j < length hs. hs ! j = Serving cid cc" by blast
next
  assume "\<exists>j < length hs. hs ! j = Serving cid cc"
  then obtain j where j: "j < length hs" "hs ! j = Serving cid cc" by blast
  then have "j < length (hs @ [h])" "(hs @ [h]) ! j = Serving cid cc"
    by (simp_all add: nth_append)
  then show "\<exists>j < length (hs @ [h]). (hs @ [h]) ! j = Serving cid cc" by blast
qed

lemma registry_matches_append:
  assumes "registry_matches cs hs" "\<forall>cid cc. h \<noteq> Serving cid cc"
  shows "registry_matches cs (hs @ [h])"
  unfolding registry_matches_def
proof (intro allI)
  fix cid cc
  have "(map_of cs cid = Some cc) = (\<exists>j < length hs. hs ! j = Serving cid cc)"
    using assms(1) by (simp add: registry_matches_def)
  also have "\<dots> = (\<exists>j < length (hs @ [h]). (hs @ [h]) ! j = Serving cid cc)"
    by (rule ex_Serving_append [OF assms(2), symmetric])
  finally show "(map_of cs cid = Some cc) =
      (\<exists>j < length (hs @ [h]). (hs @ [h]) ! j = Serving cid cc)" .
qed

lemma registry_matches_admit:
  assumes m: "registry_matches cs hs" and i: "i < length hs" and sp: "hs ! i = Spawned c"
    and fresh: "\<forall>j < length hs. handler_id (hs ! j) \<noteq> Some k"
  shows "registry_matches (AList.update k cc cs) (hs[i := Serving k cc])"
  unfolding registry_matches_def
proof (intro allI)
  fix cid cc'
  let ?hs' = "hs[i := Serving k cc]"
  show "(map_of (AList.update k cc cs) cid = Some cc') =
        (\<exists>j < length ?hs'. ?hs' ! j = Serving cid cc')"
  proof (cases "cid = k")
    case True
    have "(\<exists>j < length ?hs'. ?hs' ! j = Serving k cc') = (cc' = cc)"
    proof
      assume "\<exists>j < length ?hs'. ?hs' ! j = Serving k cc'"
      then obtain j where j: "j < length hs" "?hs' ! j = Serving k cc'" by auto
      show "cc' = cc"
      proof (cases "j = i")
        case True
        with j show ?thesis by simp
      next
        case False
        with j have "handler_id (hs ! j) = Some k" by simp
        with fresh j(1) show ?thesis by blast
      qed
    next
      assume "cc' = cc"
      with i show "\<exists>j < length ?hs'. ?hs' ! j = Serving k cc'" by (auto intro!: exI [of _ i])
    qed
    with True show ?thesis by (auto simp: update_conv')
  next
    case False
    have "(\<exists>j < length ?hs'. ?hs' ! j = Serving cid cc') =
          (\<exists>j < length hs. hs ! j = Serving cid cc')"
    proof
      assume "\<exists>j < length ?hs'. ?hs' ! j = Serving cid cc'"
      then obtain j where j: "j < length hs" "?hs' ! j = Serving cid cc'" by auto
      with False have "j \<noteq> i" by auto
      with j show "\<exists>j < length hs. hs ! j = Serving cid cc'" by auto
    next
      assume "\<exists>j < length hs. hs ! j = Serving cid cc'"
      then obtain j where j: "j < length hs" "hs ! j = Serving cid cc'" by auto
      with sp have "j \<noteq> i" by auto
      with j show "\<exists>j < length ?hs'. ?hs' ! j = Serving cid cc'" by auto
    qed
    with False m show ?thesis by (simp add: update_conv' registry_matches_def)
  qed
qed

lemma registry_matches_leave:
  assumes m: "registry_matches cs hs" and u: "unique_ids hs"
    and i: "i < length hs" and sv: "hs ! i = Serving k cc"
  shows "registry_matches (AList.delete k cs) (hs[i := Closing k cc])"
  unfolding registry_matches_def
proof (intro allI)
  fix cid cc'
  let ?hs' = "hs[i := Closing k cc]"
  show "(map_of (AList.delete k cs) cid = Some cc') =
        (\<exists>j < length ?hs'. ?hs' ! j = Serving cid cc')"
  proof (cases "cid = k")
    case True
    have "\<not> (\<exists>j < length ?hs'. ?hs' ! j = Serving k cc')"
    proof
      assume "\<exists>j < length ?hs'. ?hs' ! j = Serving k cc'"
      then obtain j where j: "j < length hs" "?hs' ! j = Serving k cc'" by auto
      then have ji: "j \<noteq> i" using i by auto
      with j have "handler_id (hs ! j) = Some k" by simp
      moreover from sv have "handler_id (hs ! i) = Some k" by simp
      ultimately show False using unique_idsD [OF u j(1) i ji] by simp
    qed
    with True show ?thesis by (simp add: delete_conv')
  next
    case False
    have "(\<exists>j < length ?hs'. ?hs' ! j = Serving cid cc') =
          (\<exists>j < length hs. hs ! j = Serving cid cc')"
    proof
      assume "\<exists>j < length ?hs'. ?hs' ! j = Serving cid cc'"
      then obtain j where j: "j < length hs" "?hs' ! j = Serving cid cc'" by auto
      then have "j \<noteq> i" using i by auto
      with j show "\<exists>j < length hs. hs ! j = Serving cid cc'" by auto
    next
      assume "\<exists>j < length hs. hs ! j = Serving cid cc'"
      then obtain j where j: "j < length hs" "hs ! j = Serving cid cc'" by auto
      with sv False have "j \<noteq> i" by auto
      with j show "\<exists>j < length ?hs'. ?hs' ! j = Serving cid cc'" by auto
    qed
    with False m show ?thesis by (simp add: delete_conv' registry_matches_def)
  qed
qed

text \<open>
  The registry invariant holds in every reachable state in which the counter has not wrapped.
\<close>

lemma do_admit_cases:
  assumes "wg s ! i = Spawned c"
  shows "do_admit i s = s\<lparr>mu := mu s, wg := (wg s)[i := Exited],
             effects := effects s @ [ConnClose c]\<rparr> \<or>
         do_admit i s = s\<lparr>mu := (mu s)\<lparr>connID := connID (mu s) + 1,
               clients := AList.update (connID (mu s))
                 (NewClientConnection c (connID (mu s))) (clients (mu s))\<rparr>,
             wg := (wg s)[i := Serving (connID (mu s)) (NewClientConnection c (connID (mu s)))],
             effects := effects s @ onConn_body (tcpKeepAlive (mu s)) (connID (mu s)) c,
             admissions := admissions s @ [(connID (mu s), c)]\<rparr>"
  using onConn_locked_cases [of c "mu s"] assms by (auto simp: do_admit_def)

lemma admit_registry_inv:
  assumes ids: "ids_inv s" and reg: "registry_inv s"
    and i: "i < length (wg s)" and sp: "wg s ! i = Spawned c"
    and nowrap: "length (admissions (do_admit i s)) \<le> 2 ^ 64"
  shows "registry_inv (do_admit i s)"
proof -
  let ?k = "connID (mu s)"
  let ?cc = "NewClientConnection c ?k"
  from reg have u: "unique_ids (wg s)" and m: "registry_matches (clients (mu s)) (wg s)"
    by (simp_all add: registry_inv_def)
  from do_admit_cases [OF sp] show ?thesis
  proof
    assume s': "do_admit i s = s\<lparr>mu := mu s, wg := (wg s)[i := Exited],
        effects := effects s @ [ConnClose c]\<rparr>"
    have "unique_ids ((wg s)[i := Exited])"
      by (rule unique_ids_update_None [OF u]) simp
    moreover have "registry_matches (clients (mu s)) ((wg s)[i := Exited])"
      by (rule registry_matches_update_other [OF m i]) (simp_all add: sp)
    ultimately show ?thesis by (simp add: s' registry_inv_def)
  next
    assume s': "do_admit i s = s\<lparr>mu := (mu s)\<lparr>connID := ?k + 1,
         clients := AList.update ?k ?cc (clients (mu s))\<rparr>,
        wg := (wg s)[i := Serving ?k ?cc],
        effects := effects s @ onConn_body (tcpKeepAlive (mu s)) ?k c,
        admissions := admissions s @ [(?k, c)]\<rparr>"
    from nowrap have "length (admissions s) < 2 ^ 64" by (simp add: s')
    then have fresh: "\<forall>j < length (wg s). handler_id (wg s ! j) \<noteq> Some ?k"
      using fresh_id [OF ids] by blast
    have "unique_ids ((wg s)[i := Serving ?k ?cc])"
      by (rule unique_ids_update_fresh [OF u fresh]) simp
    moreover have "registry_matches (AList.update ?k ?cc (clients (mu s)))
        ((wg s)[i := Serving ?k ?cc])"
      by (rule registry_matches_admit [OF m i sp fresh])
    ultimately show ?thesis by (simp add: s' registry_inv_def)
  qed
qed

lemma leave_registry_inv:
  assumes reg: "registry_inv s" and i: "i < length (wg s)" and sv: "wg s ! i = Serving cid cc"
  shows "registry_inv (do_leave i s)"
proof -
  from reg have u: "unique_ids (wg s)" and m: "registry_matches (clients (mu s)) (wg s)"
    by (simp_all add: registry_inv_def)
  have s': "do_leave i s = s\<lparr>mu := (mu s)\<lparr>clients := AList.delete cid (clients (mu s))\<rparr>,
      wg := (wg s)[i := Closing cid cc]\<rparr>"
    by (simp add: do_leave_def sv onConn_deferred_def)
  have "unique_ids ((wg s)[i := Closing cid cc])"
    by (rule unique_ids_update_same [OF u i]) (simp add: sv)
  moreover have "registry_matches (AList.delete cid (clients (mu s))) ((wg s)[i := Closing cid cc])"
    by (rule registry_matches_leave [OF m u i sv])
  ultimately show ?thesis by (simp add: s' registry_inv_def)
qed

lemma finish_registry_inv:
  assumes reg: "registry_inv s" and i: "i < length (wg s)" and cl: "wg s ! i = Closing cid cc"
  shows "registry_inv (do_finish i s)"
proof -
  from reg have u: "unique_ids (wg s)" and m: "registry_matches (clients (mu s)) (wg s)"
    by (simp_all add: registry_inv_def)
  have s': "do_finish i s = s\<lparr>wg := (wg s)[i := Exited],
      effects := effects s @ [ClientClose cid (cc_conn cc)]\<rparr>"
    by (simp add: do_finish_def cl)
  have "unique_ids ((wg s)[i := Exited])"
    by (rule unique_ids_update_None [OF u]) simp
  moreover have "registry_matches (clients (mu s)) ((wg s)[i := Exited])"
    by (rule registry_matches_update_other [OF m i]) (simp_all add: cl)
  ultimately show ?thesis by (simp add: s' registry_inv_def)
qed

lemma spawn_registry_inv:
  assumes reg: "registry_inv s"
  shows "registry_inv (do_spawn c s)"
proof -
  from reg have u: "unique_ids (wg s)" and m: "registry_matches (clients (mu s)) (wg s)"
    by (simp_all add: registry_inv_def)
  have "unique_ids (wg s @ [Spawned c])"
    by (rule unique_ids_append [OF u]) simp
  moreover have "registry_matches (clients (mu s)) (wg s @ [Spawned c])"
    by (rule registry_matches_append [OF m]) simp
  ultimately show ?thesis by (simp add: do_spawn_def wg_Run_def registry_inv_def)
qed

lemma close_sweep_fields:
  "mu (do_close_sweep cl s) = mu s \<and> wg (do_close_sweep cl s) = wg s \<and>
   admissions (do_close_sweep cl s) = admissions s \<and>
   listener_open (do_close_sweep cl s) = listener_open s \<and>
   run_pc (do_close_sweep cl s) = run_pc s"
  by (simp add: do_close_sweep_def split: close_state.splits prod.splits)

lemma close_return_fields:
  "mu (do_close_return s) = mu s \<and> wg (do_close_return s) = wg s \<and>
   admissions (do_close_return s) = admissions s \<and>
   listener_open (do_close_return s) = listener_open s \<and>
   run_pc (do_close_return s) = run_pc s \<and> effects (do_close_return s) = effects s"
  by (simp add: do_close_return_def split: close_state.splits)

lemma step_registry_inv:
  assumes "step s s'" "ids_inv s" "registry_inv s" "length (admissions s') \<le> 2 ^ 64"
  shows "registry_inv s'"
  using assms(1)
proof (cases rule: step.cases)
  case (spawn c)
  then show ?thesis using assms(3) by (simp add: spawn_registry_inv)
next
  case (admit i c)
  then show ?thesis using assms(2,3,4) by (simp add: admit_registry_inv)
next
  case (leave i cid cc)
  then show ?thesis using assms(3) by (simp add: leave_registry_inv)
next
  case (finish i cid cc)
  then show ?thesis using assms(3) by (simp add: finish_registry_inv)
next
  case (close_sweep errs cl)
  then show ?thesis using assms(3) by (simp add: registry_inv_def close_sweep_fields)
next
  case (close_return errs)
  then show ?thesis using assms(3) by (simp add: registry_inv_def close_return_fields)
qed (use assms(3) in \<open>simp_all add: registry_inv_def do_accept_def do_close_listener_def\<close>)

lemma step_admissions_mono:
  assumes "step s s'"
  shows "length (admissions s) \<le> length (admissions s')"
  using assms
proof (cases rule: step.cases)
  case (admit i c)
  then show ?thesis using do_admit_cases [of s i c] by auto
next
  case (close_sweep errs cl)
  then show ?thesis by (simp add: close_sweep_fields)
next
  case (close_return errs)
  then show ?thesis by (simp add: close_return_fields)
qed (simp_all add: do_accept_def do_spawn_def do_leave_def do_finish_def do_close_listener_def
       split: handler.splits)

lemma reachable_registry_inv:
  "reachable s \<Longrightarrow> length (admissions s) \<le> 2 ^ 64 \<Longrightarrow> registry_inv s"
proof (induction rule: reachable.induct)
  case (init ka mc)
  show ?case
    by (simp add: NewSQLServer_def registry_inv_def unique_ids_def registry_matches_def)
next
  case (after s s')
  from step_admissions_mono [OF after.hyps(2)] after.prems
  have "length (admissions s) \<le> 2 ^ 64" by (rule le_trans)
  then have "registry_inv s" by (rule after.IH)
  with after.hyps show ?case
    using after.prems by (simp add: step_registry_inv reachable_ids_inv)
qed

text \<open>
  Reaching a state by the steps of the transition system, one rule per step.
\<close>

lemma reach_accept:
  "reachable s \<Longrightarrow> run_pc s = Accepting \<Longrightarrow> listener_open s \<Longrightarrow> reachable (do_accept c s)"
  by (rule reachable.after [OF _ step.accept])

lemma reach_spawn: "reachable s \<Longrightarrow> run_pc s = Accepted c \<Longrightarrow> reachable (do_spawn c s)"
  by (rule reachable.after [OF _ step.spawn])

lemma reach_admit:
  "reachable s \<Longrightarrow> i < length (wg s) \<Longrightarrow> wg s ! i = Spawned c \<Longrightarrow> reachable (do_admit i s)"
  by (rule reachable.after [OF _ step.admit])

lemma reach_leave:
  "reachable s \<Longrightarrow> i < length (wg s) \<Longrightarrow> wg s ! i = Serving cid cc \<Longrightarrow> reachable (do_leave i s)"
  by (rule reachable.after [OF _ step.leave])

lemma reach_finish:
  "reachable s \<Longrightarrow> i < length (wg s) \<Longrightarrow> wg s ! i = Closing cid cc \<Longrightarrow> reachable (do_finish i s)"
  by (rule reachable.after [OF _ step.finish])

lemma srv_full_eq:
  "srv_full =
     \<lparr>mu = \<lparr>tcpKeepAlive = True, connID = 1, maxConnections = 1,
            clients = [(0, NewClientConnection (TCPConn 1) 0)]\<rparr>,
      listener_open = True, ctx_done = False,
      wg = [Serving 0 (NewClientConnection (TCPConn 1) 0), Spawned (TCPConn 2)],
      run_pc = Accepting, close_pc = NotCalled,
      effects = [SetKeepAlive (TCPConn 1), ClientRun 0 (TCPConn 1)],
      admissions = [(0, TCPConn 1)]\<rparr>"
  by (simp add: srv_full_def NewSQLServer_def do_accept_def do_spawn_def wg_Run_def do_admit_def
        onConn_locked_def onConn_body_def Let_def)

lemma srv_full_reachable: "reachable srv_full"
  unfolding srv_full_def
  apply (rule reach_spawn [where c = "TCPConn 2"])
   apply (rule reach_accept)
     apply (rule reach_admit [where c = "TCPConn 1"])
       apply (rule reach_spawn [where c = "TCPConn 1"])
        apply (rule reach_accept)
          apply (rule reachable.init)
         apply (simp_all add: NewSQLServer_def do_accept_def do_spawn_def wg_Run_def do_admit_def
        onConn_locked_def onConn_body_def Let_def)
  done

lemma reject_iff:
  assumes "within_limit st" "maxConnections st \<noteq> 0"
  shows "(maxConnections st \<le> of_nat (length (clients st))) =
         (unat (maxConnections st) \<le> length (clients st))"
proof -
  from assms have le: "length (clients st) \<le> unat (maxConnections st)"
    by (simp add: within_limit_def)
  have "unat (maxConnections st) < 2 ^ 64"
    using unsigned_less [of "maxConnections st", where ?'a = nat] by simp
  with le have "length (clients st) < 2 ^ 64" by (rule le_less_trans)
  then have "unat (of_nat (length (clients st)) :: 64 word) = length (clients st)"
    by (rule unat_of_nat_64)
  then show ?thesis by (simp add: word_le_nat_alt)
qed

lemma reachable_distinct_clients: "reachable s \<Longrightarrow> distinct (map fst (clients (mu s)))"
proof (induction rule: reachable.induct)
  case (init ka mc)
  show ?case by (simp add: NewSQLServer_def)
next
  case (after s s')
  from step_mu [OF after.hyps(2)] show ?case
  proof (elim disjE exE)
    assume "mu s' = mu s"
    with after.IH show ?thesis by simp
  next
    fix c a
    assume "onConn_locked c (mu s) = (a, mu s')"
    with onConn_locked_cases [of c "mu s"] after.IH show ?thesis
      by (auto simp: distinct_update)
  next
    fix cid
    assume "mu s' = onConn_deferred cid (mu s)"
    with after.IH show ?thesis by (simp add: onConn_deferred_def distinct_delete)
  qed
qed

text \<open>
  C2. In every reachable state of a server with a nonzero \<^verbatim>\<open>maxConnections\<close> the registry
  holds at most that many entries, one per key. The locked block of \<^verbatim>\<open>onConn\<close> decides it
  in one step: when the count has reached the limit the handler leaves the locked state as
  it is, closes the socket and returns (no client connection is made or run, so nothing is
  written to the socket); otherwise the connection is registered under the counter's value
  before the lock is released. With \<^verbatim>\<open>maxConnections = 0\<close> the block never rejects.
\<close>

theorem admission_within_limit:
  assumes "reachable s"
  shows
    "(maxConnections (mu s) \<noteq> 0 \<longrightarrow> length (clients (mu s)) \<le> unat (maxConnections (mu s))) \<and>
     distinct (map fst (clients (mu s))) \<and>
     (\<forall>i c. i < length (wg s) \<and> wg s ! i = Spawned c \<longrightarrow>
        (if maxConnections (mu s) \<noteq> 0 \<and> unat (maxConnections (mu s)) \<le> length (clients (mu s))
         then do_admit i s = s\<lparr>wg := (wg s)[i := Exited], effects := effects s @ [ConnClose c]\<rparr>
         else wg (do_admit i s) ! i = Serving (connID (mu s)) (NewClientConnection c (connID (mu s))) \<and>
              map_of (clients (mu (do_admit i s))) (connID (mu s)) =
                Some (NewClientConnection c (connID (mu s))))) \<and>
     (maxConnections (mu s) = 0 \<longrightarrow> (\<forall>c. fst (onConn_locked c (mu s)) \<noteq> Rejected))"
proof -
  from assms have lim: "within_limit (mu s)" by (rule reachable_within_limit)
  have 1: "maxConnections (mu s) \<noteq> 0 \<longrightarrow> length (clients (mu s)) \<le> unat (maxConnections (mu s))"
    using lim by (simp add: within_limit_def)
  have 2: "distinct (map fst (clients (mu s)))"
    using assms by (rule reachable_distinct_clients)
  have 3: "if maxConnections (mu s) \<noteq> 0 \<and> unat (maxConnections (mu s)) \<le> length (clients (mu s))
         then do_admit i s = s\<lparr>wg := (wg s)[i := Exited], effects := effects s @ [ConnClose c]\<rparr>
         else wg (do_admit i s) ! i = Serving (connID (mu s)) (NewClientConnection c (connID (mu s))) \<and>
              map_of (clients (mu (do_admit i s))) (connID (mu s)) =
                Some (NewClientConnection c (connID (mu s)))"
    if i: "i < length (wg s)" and sp: "wg s ! i = Spawned c" for i c
  proof (cases "maxConnections (mu s) = 0")
    case True
    then show ?thesis using i sp
      by (simp add: do_admit_def onConn_locked_def Let_def update_conv')
  next
    case False
    with reject_iff [OF lim] show ?thesis using i sp
      by (simp add: do_admit_def onConn_locked_def Let_def update_conv')
  qed
  have 4: "maxConnections (mu s) = 0 \<longrightarrow> (\<forall>c. fst (onConn_locked c (mu s)) \<noteq> Rejected)"
    by (simp add: onConn_locked_def Let_def)
  from 1 2 3 4 show ?thesis by blast
qed

theorem admission_within_limit_witness:
  "reachable srv_full \<and> maxConnections (mu srv_full) = 1 \<and>
   length (clients (mu srv_full)) = 1 \<and> wg srv_full ! 1 = Spawned (TCPConn 2) \<and>
   do_admit 1 srv_full =
     srv_full\<lparr>wg := [Serving 0 (NewClientConnection (TCPConn 1) 0), Exited],
       effects := effects srv_full @ [ConnClose (TCPConn 2)]\<rparr>"
  using admission_within_limit [OF srv_full_reachable] srv_full_reachable
  by (simp add: srv_full_eq)

text \<open>
  A connection that comes and goes leaves the registry as it was and the counter one higher;
  after \<open>2 ^ 64 - 1\<close> of them the counter is at 0 again.
\<close>

lemma admit_new_eq:
  assumes "maxConnections (mu s) = 0"
  shows "admit_new c s =
     s\<lparr>mu := (mu s)\<lparr>connID := connID (mu s) + 1,
           clients := AList.update (connID (mu s)) (NewClientConnection c (connID (mu s)))
             (clients (mu s))\<rparr>,
       wg := wg s @ [Serving (connID (mu s)) (NewClientConnection c (connID (mu s)))],
       run_pc := Accepting,
       effects := effects s @ onConn_body (tcpKeepAlive (mu s)) (connID (mu s)) c,
       admissions := admissions s @ [(connID (mu s), c)]\<rparr>"
  using assms
  by (simp add: admit_new_def do_accept_def do_spawn_def wg_Run_def do_admit_def
        onConn_locked_def Let_def)

lemma admit_new_reachable:
  assumes "reachable s" "run_pc s = Accepting" "listener_open s"
  shows "reachable (admit_new c s)"
  unfolding admit_new_def
proof (rule reach_admit [where c = c])
  show "reachable (do_spawn c (do_accept c s))"
    by (rule reach_spawn [OF reach_accept [OF assms]]) (simp add: do_accept_def)
  show "length (wg s) < length (wg (do_spawn c (do_accept c s)))"
    by (simp add: do_spawn_def do_accept_def wg_Run_def)
  show "wg (do_spawn c (do_accept c s)) ! length (wg s) = Spawned c"
    by (simp add: do_spawn_def do_accept_def wg_Run_def)
qed

lemma churn_once_eq:
  assumes "maxConnections (mu s) = 0"
  shows "churn_once s =
     s\<lparr>mu := (mu s)\<lparr>connID := connID (mu s) + 1,
           clients := AList.delete (connID (mu s)) (clients (mu s))\<rparr>,
       wg := wg s @ [Exited],
       run_pc := Accepting,
       effects := effects s @ onConn_body (tcpKeepAlive (mu s)) (connID (mu s)) (OtherConn 0) @
         [ClientClose (connID (mu s)) (OtherConn 0)],
       admissions := admissions s @ [(connID (mu s), OtherConn 0)]\<rparr>"
  by (simp add: churn_once_def admit_new_eq [OF assms] do_leave_def do_finish_def
        onConn_deferred_def NewClientConnection_def delete_update_same)

lemma churn_once_reachable:
  assumes "reachable s" "run_pc s = Accepting" "listener_open s" "maxConnections (mu s) = 0"
  shows "reachable (churn_once s)"
  unfolding churn_once_def
proof (rule reach_finish)
  let ?k = "connID (mu s)"
  let ?cc = "NewClientConnection (OtherConn 0) ?k"
  let ?s1 = "admit_new (OtherConn 0) s"
  have r1: "reachable ?s1" by (rule admit_new_reachable [OF assms(1,2,3)])
  have w1: "wg ?s1 ! length (wg s) = Serving ?k ?cc" "length (wg s) < length (wg ?s1)"
    by (simp_all add: admit_new_eq [OF assms(4)])
  show "reachable (do_leave (length (wg s)) ?s1)"
    by (rule reach_leave [OF r1 w1(2) w1(1)])
  show "length (wg s) < length (wg (do_leave (length (wg s)) ?s1))"
    by (simp add: admit_new_eq [OF assms(4)] do_leave_def)
  show "wg (do_leave (length (wg s)) ?s1) ! length (wg s) = Closing ?k ?cc"
    by (simp add: admit_new_eq [OF assms(4)] do_leave_def)
qed

lemma of_nat_Suc_neq_0:
  assumes "Suc n < 2 ^ 64"
  shows "(of_nat (Suc n) :: 64 word) \<noteq> 0"
proof
  assume "(of_nat (Suc n) :: 64 word) = 0"
  then have "(of_nat (Suc n) :: 64 word) = of_nat 0" by simp
  moreover have "(0::nat) < 2 ^ 64" by simp
  ultimately have "Suc n = 0" using assms by (intro of_nat_inj_64)
  then show False by simp
qed

lemma churn_state:
  fixes b :: SQLServer
  defines "b \<equiv> admit_new (TCPConn 1) (NewSQLServer False 0)"
  assumes n: "n < 2 ^ 64"
  shows "reachable (churn n b) \<and> run_pc (churn n b) = Accepting \<and> listener_open (churn n b) \<and>
         mu (churn n b) = \<lparr>tcpKeepAlive = False, connID = of_nat (Suc n), maxConnections = 0,
            clients = [(0, NewClientConnection (TCPConn 1) 0)]\<rparr> \<and>
         wg (churn n b) = Serving 0 (NewClientConnection (TCPConn 1) 0) # replicate n Exited \<and>
         length (admissions (churn n b)) = Suc n \<and>
         admissions (churn n b) ! 0 = (0, TCPConn 1)"
  using n
proof (induction n)
  case 0
  have b_eq: "b = (NewSQLServer False 0)\<lparr>mu := \<lparr>tcpKeepAlive = False, connID = 1,
        maxConnections = 0, clients = [(0, NewClientConnection (TCPConn 1) 0)]\<rparr>,
      wg := [Serving 0 (NewClientConnection (TCPConn 1) 0)],
      run_pc := Accepting,
      effects := [ClientRun 0 (TCPConn 1)],
      admissions := [(0, TCPConn 1)]\<rparr>"
    unfolding b_def by (simp add: admit_new_eq NewSQLServer_def onConn_body_def)
  have "reachable b"
    unfolding b_def
    by (rule admit_new_reachable [OF reachable.init]) (simp_all add: NewSQLServer_def)
  then show ?case by (simp add: b_eq NewSQLServer_def)
next
  case (Suc n)
  then have "n < 2 ^ 64" by simp
  with Suc.IH have IH:
    "reachable (churn n b)" "run_pc (churn n b) = Accepting" "listener_open (churn n b)"
    "mu (churn n b) = \<lparr>tcpKeepAlive = False, connID = of_nat (Suc n), maxConnections = 0,
            clients = [(0, NewClientConnection (TCPConn 1) 0)]\<rparr>"
    "wg (churn n b) = Serving 0 (NewClientConnection (TCPConn 1) 0) # replicate n Exited"
    "length (admissions (churn n b)) = Suc n"
    "admissions (churn n b) ! 0 = (0, TCPConn 1)"
    by blast+
  from IH(4) have mx: "maxConnections (mu (churn n b)) = 0" by simp
  have ne: "(of_nat (Suc n) :: 64 word) \<noteq> 0"
    by (rule of_nat_Suc_neq_0 [OF Suc.prems])
  have r: "reachable (churn (Suc n) b)"
    using churn_once_reachable [OF IH(1,2,3) mx] by simp
  have m: "mu (churn (Suc n) b) = \<lparr>tcpKeepAlive = False, connID = of_nat (Suc (Suc n)),
        maxConnections = 0, clients = [(0, NewClientConnection (TCPConn 1) 0)]\<rparr>"
    using ne by (simp add: churn_once_eq [OF mx] IH(4) AList.delete_eq)
  have w: "wg (churn (Suc n) b) =
      Serving 0 (NewClientConnection (TCPConn 1) 0) # replicate (Suc n) Exited"
    by (simp add: churn_once_eq [OF mx] IH(5) replicate_append_same)
  have a: "length (admissions (churn (Suc n) b)) = Suc (Suc n)"
    "admissions (churn (Suc n) b) ! 0 = (0, TCPConn 1)"
    using IH(6,7) by (simp_all add: churn_once_eq [OF mx] nth_append)
  have p: "run_pc (churn (Suc n) b) = Accepting" "listener_open (churn (Suc n) b)"
    using IH(3) by (simp_all add: churn_once_eq [OF mx])
  from r m w a p show ?case by blast
qed

lemma wrap_general:
  fixes n :: nat
  defines "c \<equiv> churn n (admit_new (TCPConn 1) (NewSQLServer False 0))"
  assumes n: "n < 2 ^ 64" and z: "(of_nat (Suc n) :: 64 word) = 0"
  shows "reachable (admit_new (TCPConn 2) c) \<and>
   length (admissions (admit_new (TCPConn 2) c)) = Suc (Suc n) \<and>
   admissions (admit_new (TCPConn 2) c) ! 0 = (0, TCPConn 1) \<and>
   admissions (admit_new (TCPConn 2) c) ! (Suc n) = (0, TCPConn 2) \<and>
   wg (admit_new (TCPConn 2) c) ! 0 = Serving 0 (NewClientConnection (TCPConn 1) 0) \<and>
   wg (admit_new (TCPConn 2) c) ! (Suc n) = Serving 0 (NewClientConnection (TCPConn 2) 0) \<and>
   length (wg (admit_new (TCPConn 2) c)) = Suc (Suc n) \<and>
   clients (mu (admit_new (TCPConn 2) c)) = [(0, NewClientConnection (TCPConn 2) 0)]"
proof -
  from churn_state [OF n] have C:
    "reachable c" "run_pc c = Accepting" "listener_open c"
    "mu c = \<lparr>tcpKeepAlive = False, connID = of_nat (Suc n), maxConnections = 0,
            clients = [(0, NewClientConnection (TCPConn 1) 0)]\<rparr>"
    "wg c = Serving 0 (NewClientConnection (TCPConn 1) 0) # replicate n Exited"
    "length (admissions c) = Suc n"
    "admissions c ! 0 = (0, TCPConn 1)"
    unfolding c_def by blast+
  from C(4) z have mx: "maxConnections (mu c) = 0" and k: "connID (mu c) = 0"
    and cl: "clients (mu c) = [(0, NewClientConnection (TCPConn 1) 0)]"
    by simp_all
  have r: "reachable (admit_new (TCPConn 2) c)"
    by (rule admit_new_reachable [OF C(1,2,3)])
  note eq = admit_new_eq [OF mx, of "TCPConn 2"]
  have a1: "length (admissions (admit_new (TCPConn 2) c)) = Suc (Suc n)"
    by (simp add: eq C(6))
  have a2: "admissions (admit_new (TCPConn 2) c) ! 0 = (0, TCPConn 1)"
    using C(6,7) by (simp add: eq nth_append)
  have a3: "admissions (admit_new (TCPConn 2) c) ! (Suc n) = (0, TCPConn 2)"
    using nth_append_length [of "admissions c" "(0, TCPConn 2)" "[]"]
    by (simp add: eq k C(6))
  have w1: "wg (admit_new (TCPConn 2) c) ! 0 = Serving 0 (NewClientConnection (TCPConn 1) 0)"
    by (simp add: eq C(5))
  have "length (wg c) = Suc n" by (simp add: C(5))
  then have w3: "wg (admit_new (TCPConn 2) c) ! (Suc n) =
      Serving 0 (NewClientConnection (TCPConn 2) 0)"
    using nth_append_length [of "wg c" "Serving 0 (NewClientConnection (TCPConn 2) 0)" "[]"]
    by (simp add: eq k)
  have w2: "length (wg (admit_new (TCPConn 2) c)) = Suc (Suc n)"
    by (simp add: eq C(5))
  have c1: "clients (mu (admit_new (TCPConn 2) c)) = [(0, NewClientConnection (TCPConn 2) 0)]"
    by (simp add: eq k cl)
  from r a1 a2 a3 w1 w3 w2 c1 show ?thesis by blast
qed

lemma srv_wrap_facts:
  "reachable srv_wrap \<and>
   length (admissions srv_wrap) = Suc (Suc (2 ^ 64 - 1)) \<and>
   admissions srv_wrap ! 0 = (0, TCPConn 1) \<and>
   admissions srv_wrap ! (Suc (2 ^ 64 - 1)) = (0, TCPConn 2) \<and>
   wg srv_wrap ! 0 = Serving 0 (NewClientConnection (TCPConn 1) 0) \<and>
   wg srv_wrap ! (Suc (2 ^ 64 - 1)) = Serving 0 (NewClientConnection (TCPConn 2) 0) \<and>
   length (wg srv_wrap) = Suc (Suc (2 ^ 64 - 1)) \<and>
   clients (mu srv_wrap) = [(0, NewClientConnection (TCPConn 2) 0)]"
proof -
  have 1: "(2 ^ 64 - 1 :: nat) < 2 ^ 64" by simp
  have 2: "(of_nat (Suc (2 ^ 64 - 1)) :: 64 word) = 0" by simp
  show ?thesis unfolding srv_wrap_def by (rule wrap_general [OF 1 2])
qed

lemma Suc_2_64: "Suc (2 ^ 64 - 1) = (2 ^ 64 :: nat)"
  by simp

lemma of_nat_less_64:
  assumes "i < j" "j < 2 ^ 64"
  shows "(of_nat i :: 64 word) < of_nat j"
proof -
  from assms have "i < 2 ^ 64" by (rule less_trans)
  then have "unat (of_nat i :: 64 word) = i" by (rule unat_of_nat_64)
  moreover have "unat (of_nat j :: 64 word) = j" by (rule unat_of_nat_64 [OF assms(2)])
  ultimately show ?thesis using assms(1) by (simp add: word_less_nat_alt)
qed

lemma srv_two_eq:
  "srv_two =
     \<lparr>mu = \<lparr>tcpKeepAlive = False, connID = 2, maxConnections = 0,
            clients = [(0, NewClientConnection (TCPConn 1) 0),
                       (1, NewClientConnection (TCPConn 2) 1)]\<rparr>,
      listener_open = True, ctx_done = False,
      wg = [Serving 0 (NewClientConnection (TCPConn 1) 0),
            Serving 1 (NewClientConnection (TCPConn 2) 1)],
      run_pc = Accepting, close_pc = NotCalled,
      effects = [ClientRun 0 (TCPConn 1), ClientRun 1 (TCPConn 2)],
      admissions = [(0, TCPConn 1), (1, TCPConn 2)]\<rparr>"
  by (simp add: srv_two_def admit_new_eq NewSQLServer_def onConn_body_def)

lemma srv_two_reachable: "reachable srv_two"
  unfolding srv_two_def
  by (rule admit_new_reachable [OF admit_new_reachable [OF reachable.init]])
     (simp_all add: NewSQLServer_def admit_new_eq)

text \<open>
  C7, as amended. The id of a connection is the value of the counter at its admission, and
  the counter is incremented in the same locked block; a rejected connection leaves the
  locked state as it is. As long as no more than \<open>2 ^ 64\<close> connections have been admitted
  since the server was made, a connection admitted later has a strictly larger id than one
  admitted earlier, so no two admitted connections share an id.
\<close>

theorem connection_ids_increase:
  assumes "reachable s" "length (admissions s) \<le> 2 ^ 64"
  shows
    "(\<forall>i j. i < j \<and> j < length (admissions s) \<longrightarrow>
        fst (admissions s ! i) < fst (admissions s ! j)) \<and>
     distinct (map fst (admissions s)) \<and>
     connID (mu s) = of_nat (length (admissions s)) \<and>
     (\<forall>c. onConn_locked c (mu s) = (Rejected, mu s) \<or>
          onConn_locked c (mu s) =
            (Admitted (connID (mu s)) (NewClientConnection c (connID (mu s))),
             (mu s)\<lparr>connID := connID (mu s) + 1,
                clients := AList.update (connID (mu s)) (NewClientConnection c (connID (mu s)))
                  (clients (mu s))\<rparr>))"
proof -
  from assms(1) have ids: "ids_inv s" by (rule reachable_ids_inv)
  then have nth: "\<And>k. k < length (admissions s) \<Longrightarrow> fst (admissions s ! k) = of_nat k"
    and cnt: "connID (mu s) = of_nat (length (admissions s))"
    by (simp_all add: ids_inv_def)
  have inc: "fst (admissions s ! i) < fst (admissions s ! j)"
    if "i < j" "j < length (admissions s)" for i j
  proof -
    from that assms(2) have j: "j < 2 ^ 64" by simp
    from that have "i < length (admissions s)" by simp
    with that(2) nth have "fst (admissions s ! i) = of_nat i" "fst (admissions s ! j) = of_nat j"
      by blast+
    with of_nat_less_64 [OF that(1) j] show ?thesis by simp
  qed
  have dist: "distinct (map fst (admissions s))"
    unfolding distinct_conv_nth
  proof (intro allI impI)
    fix i j
    assume i: "i < length (map fst (admissions s))" and j: "j < length (map fst (admissions s))"
      and ne: "i \<noteq> j"
    from ne consider "i < j" | "j < i" by (auto simp: neq_iff)
    then show "map fst (admissions s) ! i \<noteq> map fst (admissions s) ! j"
    proof cases
      case 1
      with inc [of i j] j i show ?thesis by simp
    next
      case 2
      with inc [of j i] j i show ?thesis by simp
    qed
  qed
  from inc dist cnt onConn_locked_cases show ?thesis by blast
qed

theorem connection_ids_increase_witness:
  "reachable srv_two \<and> length (admissions srv_two) \<le> 2 ^ 64 \<and>
   admissions srv_two = [(0, TCPConn 1), (1, TCPConn 2)] \<and>
   fst (admissions srv_two ! 0) < fst (admissions srv_two ! 1) \<and>
   connID (mu srv_two) = 2"
proof -
  have len: "length (admissions srv_two) \<le> 2 ^ 64" by (simp add: srv_two_eq)
  from connection_ids_increase [OF srv_two_reachable len]
  have "fst (admissions srv_two ! 0) < fst (admissions srv_two ! 1)"
    by (simp add: srv_two_eq)
  with srv_two_reachable len show ?thesis by (simp add: srv_two_eq)
qed

text \<open>
  C7 as stated fails when the counter, a \<^verbatim>\<open>uint64\<close>, wraps around: after \<open>2 ^ 64\<close>
  admissions the next connection gets the id 0 again, the id of the first connection.
\<close>

theorem connection_ids_wrap_counterexample:
  "reachable srv_wrap \<and>
   length (admissions srv_wrap) = 2 ^ 64 + 1 \<and>
   admissions srv_wrap ! 0 = (0, TCPConn 1) \<and>
   admissions srv_wrap ! (2 ^ 64) = (0, TCPConn 2) \<and>
   \<not> fst (admissions srv_wrap ! 0) < fst (admissions srv_wrap ! (2 ^ 64))"
  using srv_wrap_facts unfolding Suc_2_64 by simp

text \<open>
  Every admitted connection stays accounted for.
\<close>

lemma accounted_mono:
  assumes "accounted hs effs p" "set effs \<subseteq> set effs'"
  shows "accounted hs effs' p"
  using assms unfolding accounted_def by blast

lemma accounted_append:
  assumes "accounted hs effs p"
  shows "accounted (hs @ [h]) effs p"
proof -
  let ?S = "Serving (fst p) (NewClientConnection (snd p) (fst p))"
  let ?C = "Closing (fst p) (NewClientConnection (snd p) (fst p))"
  from assms consider i where "i < length hs" "hs ! i = ?S \<or> hs ! i = ?C"
    | "ClientClose (fst p) (snd p) \<in> set effs"
    unfolding accounted_def by blast
  then show ?thesis
  proof cases
    case 1
    then have "i < length (hs @ [h])" "(hs @ [h]) ! i = ?S \<or> (hs @ [h]) ! i = ?C"
      by (simp_all add: nth_append)
    then show ?thesis unfolding accounted_def by blast
  next
    case 2
    then show ?thesis unfolding accounted_def by blast
  qed
qed

lemma accounted_update:
  assumes a: "accounted hs effs p" and i: "i < length hs"
    and keep: "handler_id (hs ! i) = None \<or> h = hs ! i \<or>
       (\<exists>k cc. hs ! i = Serving k cc \<and> h = Closing k cc) \<or>
       (\<exists>k cc. hs ! i = Closing k cc \<and> ClientClose k (cc_conn cc) \<in> set effs)"
  shows "accounted (hs[i := h]) effs p"
proof -
  let ?S = "Serving (fst p) (NewClientConnection (snd p) (fst p))"
  let ?C = "Closing (fst p) (NewClientConnection (snd p) (fst p))"
  from a consider j where "j < length hs" "hs ! j = ?S \<or> hs ! j = ?C"
    | "ClientClose (fst p) (snd p) \<in> set effs"
    unfolding accounted_def by blast
  then show ?thesis
  proof cases
    case 2
    then show ?thesis unfolding accounted_def by blast
  next
    case 1
    show ?thesis
    proof (cases "j = i")
      case False
      with 1 have "j < length (hs[i := h])" "hs[i := h] ! j = ?S \<or> hs[i := h] ! j = ?C"
        by simp_all
      then show ?thesis unfolding accounted_def by blast
    next
      case True
      with 1 have hi: "hs ! i = ?S \<or> hs ! i = ?C" by simp
      from keep show ?thesis
      proof (elim disjE exE conjE)
        assume "handler_id (hs ! i) = None"
        with hi show ?thesis by auto
      next
        assume "h = hs ! i"
        with hi i have "i < length (hs[i := h])" "hs[i := h] ! i = ?S \<or> hs[i := h] ! i = ?C"
          by simp_all
        then show ?thesis unfolding accounted_def by blast
      next
        fix k cc
        assume "hs ! i = Serving k cc" "h = Closing k cc"
        with hi i have "i < length (hs[i := h])" "hs[i := h] ! i = ?C" by auto
        then show ?thesis unfolding accounted_def by blast
      next
        fix k cc
        assume c: "hs ! i = Closing k cc" "ClientClose k (cc_conn cc) \<in> set effs"
        with hi have "k = fst p" "cc = NewClientConnection (snd p) (fst p)" by auto
        with c(2) have "ClientClose (fst p) (snd p) \<in> set effs"
          by (simp add: NewClientConnection_def)
        then show ?thesis unfolding accounted_def by blast
      qed
    qed
  qed
qed

lemma accounted_new:
  assumes "i < length hs"
  shows "accounted (hs[i := Serving k (NewClientConnection c k)]) effs (k, c)"
proof -
  from assms have "i < length (hs[i := Serving k (NewClientConnection c k)])"
    "hs[i := Serving k (NewClientConnection c k)] ! i = Serving k (NewClientConnection c k)"
    by simp_all
  then show ?thesis unfolding accounted_def fst_conv snd_conv by blast
qed

lemma admit_accounted_inv:
  assumes inv: "accounted_inv s" and i: "i < length (wg s)" and sp: "wg s ! i = Spawned c"
  shows "accounted_inv (do_admit i s)"
proof -
  have hid: "handler_id (wg s ! i) = None" by (simp add: sp)
  from do_admit_cases [OF sp] show ?thesis
  proof
    assume s': "do_admit i s = s\<lparr>mu := mu s, wg := (wg s)[i := Exited],
        effects := effects s @ [ConnClose c]\<rparr>"
    have "accounted ((wg s)[i := Exited]) (effects s @ [ConnClose c]) p"
      if "p \<in> set (admissions s)" for p
    proof -
      from inv that have "accounted (wg s) (effects s) p" by (simp add: accounted_inv_def)
      then have "accounted (wg s) (effects s @ [ConnClose c]) p"
        by (rule accounted_mono) auto
      then show ?thesis by (rule accounted_update [OF _ i]) (simp add: hid)
    qed
    then show ?thesis by (simp add: s' accounted_inv_def)
  next
    let ?k = "connID (mu s)"
    let ?effs = "effects s @ onConn_body (tcpKeepAlive (mu s)) ?k c"
    let ?hs = "(wg s)[i := Serving ?k (NewClientConnection c ?k)]"
    assume s': "do_admit i s = s\<lparr>mu := (mu s)\<lparr>connID := ?k + 1,
         clients := AList.update ?k (NewClientConnection c ?k) (clients (mu s))\<rparr>,
        wg := ?hs, effects := ?effs, admissions := admissions s @ [(?k, c)]\<rparr>"
    have old: "accounted ?hs ?effs p" if "p \<in> set (admissions s)" for p
    proof -
      from inv that have "accounted (wg s) (effects s) p" by (simp add: accounted_inv_def)
      then have "accounted (wg s) ?effs p" by (rule accounted_mono) auto
      then show ?thesis by (rule accounted_update [OF _ i]) (simp add: hid)
    qed
    have new: "accounted ?hs ?effs (?k, c)" by (rule accounted_new [OF i])
    from old new show ?thesis by (auto simp: s' accounted_inv_def)
  qed
qed

lemma leave_accounted_inv:
  assumes inv: "accounted_inv s" and i: "i < length (wg s)" and sv: "wg s ! i = Serving cid cc"
  shows "accounted_inv (do_leave i s)"
proof -
  have s': "do_leave i s = s\<lparr>mu := onConn_deferred cid (mu s),
      wg := (wg s)[i := Closing cid cc]\<rparr>"
    by (simp add: do_leave_def sv)
  have "accounted ((wg s)[i := Closing cid cc]) (effects s) p"
    if "p \<in> set (admissions s)" for p
  proof -
    from inv that have "accounted (wg s) (effects s) p" by (simp add: accounted_inv_def)
    then show ?thesis by (rule accounted_update [OF _ i]) (simp add: sv)
  qed
  then show ?thesis by (simp add: s' accounted_inv_def)
qed

lemma finish_accounted_inv:
  assumes inv: "accounted_inv s" and i: "i < length (wg s)" and cl: "wg s ! i = Closing cid cc"
  shows "accounted_inv (do_finish i s)"
proof -
  let ?effs = "effects s @ [ClientClose cid (cc_conn cc)]"
  have s': "do_finish i s = s\<lparr>wg := (wg s)[i := Exited], effects := ?effs\<rparr>"
    by (simp add: do_finish_def cl)
  have "accounted ((wg s)[i := Exited]) ?effs p" if "p \<in> set (admissions s)" for p
  proof -
    from inv that have "accounted (wg s) (effects s) p" by (simp add: accounted_inv_def)
    then have "accounted (wg s) ?effs p" by (rule accounted_mono) auto
    then show ?thesis by (rule accounted_update [OF _ i]) (simp add: cl)
  qed
  then show ?thesis by (simp add: s' accounted_inv_def)
qed

lemma close_sweep_effects:
  "set (effects s) \<subseteq> set (effects (do_close_sweep cl s))"
proof (cases "close_pc s")
  case (ListenerClosed errs)
  obtain errs' effs' where r: "close_clients cl (clients (mu s)) (errs, effects s) = (errs', effs')"
    by (cases "close_clients cl (clients (mu s)) (errs, effects s)")
  with close_clients_effects_mono [of "effects s" cl "clients (mu s)" errs]
  show ?thesis by (simp add: do_close_sweep_def ListenerClosed)
qed (simp_all add: do_close_sweep_def)

lemma step_accounted_inv:
  assumes "step s s'" "accounted_inv s"
  shows "accounted_inv s'"
  using assms(1)
proof (cases rule: step.cases)
  case (spawn c)
  then show ?thesis using assms(2)
    by (simp add: accounted_inv_def do_spawn_def wg_Run_def accounted_append)
next
  case (admit i c)
  then show ?thesis using assms(2) by (simp add: admit_accounted_inv)
next
  case (leave i cid cc)
  then show ?thesis using assms(2) by (simp add: leave_accounted_inv)
next
  case (finish i cid cc)
  then show ?thesis using assms(2) by (simp add: finish_accounted_inv)
next
  case (close_listener lerr)
  have "accounted (wg s) (effects s @ [ListenerClose]) p" if "accounted (wg s) (effects s) p" for p
    using that by (rule accounted_mono) auto
  with close_listener assms(2) show ?thesis
    by (simp add: accounted_inv_def do_close_listener_def)
next
  case (close_sweep errs cl)
  have "accounted (wg s) (effects (do_close_sweep cl s)) p" if "accounted (wg s) (effects s) p" for p
    using that close_sweep_effects by (rule accounted_mono)
  with close_sweep assms(2) show ?thesis
    by (simp add: accounted_inv_def close_sweep_fields)
next
  case (close_return errs)
  then show ?thesis using assms(2) by (simp add: accounted_inv_def close_return_fields)
qed (use assms(2) in \<open>simp_all add: accounted_inv_def do_accept_def\<close>)

lemma reachable_accounted_inv: "reachable s \<Longrightarrow> accounted_inv s"
proof (induction rule: reachable.induct)
  case (init ka mc)
  show ?case by (simp add: NewSQLServer_def accounted_inv_def)
next
  case (after s s')
  then show ?case by (simp add: step_accounted_inv)
qed

lemma srv_left_eq:
  "srv_left =
     \<lparr>mu = \<lparr>tcpKeepAlive = False, connID = 2, maxConnections = 0,
            clients = [(1, NewClientConnection (TCPConn 2) 1)]\<rparr>,
      listener_open = True, ctx_done = False,
      wg = [Exited, Serving 1 (NewClientConnection (TCPConn 2) 1)],
      run_pc = Accepting, close_pc = NotCalled,
      effects = [ClientRun 0 (TCPConn 1), ClientRun 1 (TCPConn 2), ClientClose 0 (TCPConn 1)],
      admissions = [(0, TCPConn 1), (1, TCPConn 2)]\<rparr>"
  by (simp add: srv_left_def srv_two_eq do_leave_def do_finish_def onConn_deferred_def
        AList.delete_eq NewClientConnection_def)

lemma srv_left_reachable: "reachable srv_left"
  unfolding srv_left_def
  by (rule reach_finish [OF reach_leave [OF srv_two_reachable]])
     (simp_all add: srv_two_eq do_leave_def)

text \<open>
  C10, as amended. When the body of a handler is left, the locked block of its deferred
  function deletes the connection id from the registry, and the client connection is closed
  before the handler returns. As long as no more than \<open>2 ^ 64\<close> connections have been
  admitted, the registry holds exactly the client connections of the handlers that are
  inside \<^verbatim>\<open>clientConn.Run\<close>, each under its id, and no entry for a handler that is past its
  deferred delete; and every admitted connection is either with such a handler or has had
  its client connection closed.
\<close>

theorem registry_holds_serving_handlers:
  assumes "reachable s" "length (admissions s) \<le> 2 ^ 64"
  shows
    "(\<forall>cid clientConn. (map_of (clients (mu s)) cid = Some clientConn) =
        (\<exists>i < length (wg s). wg s ! i = Serving cid clientConn)) \<and>
     (\<forall>i cid clientConn. i < length (wg s) \<and> wg s ! i = Closing cid clientConn \<longrightarrow>
        map_of (clients (mu s)) cid = None) \<and>
     (\<forall>i cid clientConn. i < length (wg s) \<and> wg s ! i = Serving cid clientConn \<longrightarrow>
        map_of (clients (mu (do_leave i s))) cid = None \<and>
        wg (do_leave i s) ! i = Closing cid clientConn) \<and>
     (\<forall>i cid clientConn. i < length (wg s) \<and> wg s ! i = Closing cid clientConn \<longrightarrow>
        effects (do_finish i s) = effects s @ [ClientClose cid (cc_conn clientConn)] \<and>
        wg (do_finish i s) ! i = Exited) \<and>
     (\<forall>p \<in> set (admissions s).
        (\<exists>i < length (wg s).
            wg s ! i = Serving (fst p) (NewClientConnection (snd p) (fst p)) \<or>
            wg s ! i = Closing (fst p) (NewClientConnection (snd p) (fst p))) \<or>
        ClientClose (fst p) (snd p) \<in> set (effects s))"
proof -
  from assms have reg: "registry_inv s" by (rule reachable_registry_inv)
  then have u: "unique_ids (wg s)" and m: "registry_matches (clients (mu s)) (wg s)"
    by (simp_all add: registry_inv_def)
  have 1: "\<forall>cid clientConn. (map_of (clients (mu s)) cid = Some clientConn) =
        (\<exists>i < length (wg s). wg s ! i = Serving cid clientConn)"
    using m by (simp add: registry_matches_def)
  have 2: "map_of (clients (mu s)) cid = None"
    if i: "i < length (wg s)" and c: "wg s ! i = Closing cid clientConn" for i cid clientConn
  proof (cases "map_of (clients (mu s)) cid")
    case None
    then show ?thesis .
  next
    case (Some cc')
    with 1 obtain j where j: "j < length (wg s)" "wg s ! j = Serving cid cc'" by blast
    with c have ne: "i \<noteq> j" by auto
    from c have "handler_id (wg s ! i) = Some cid" by simp
    from unique_idsD [OF u i j(1) ne this] j(2) show ?thesis by simp
  qed
  have 3: "map_of (clients (mu (do_leave i s))) cid = None \<and>
        wg (do_leave i s) ! i = Closing cid clientConn"
    if "i < length (wg s)" "wg s ! i = Serving cid clientConn" for i cid clientConn
    using that by (simp add: do_leave_def onConn_deferred_def delete_conv')
  have 4: "effects (do_finish i s) = effects s @ [ClientClose cid (cc_conn clientConn)] \<and>
        wg (do_finish i s) ! i = Exited"
    if "i < length (wg s)" "wg s ! i = Closing cid clientConn" for i cid clientConn
    using that by (simp add: do_finish_def)
  have 5: "\<forall>p \<in> set (admissions s).
        (\<exists>i < length (wg s).
            wg s ! i = Serving (fst p) (NewClientConnection (snd p) (fst p)) \<or>
            wg s ! i = Closing (fst p) (NewClientConnection (snd p) (fst p))) \<or>
        ClientClose (fst p) (snd p) \<in> set (effects s)"
    using reachable_accounted_inv [OF assms(1)]
    by (simp add: accounted_inv_def accounted_def)
  from 1 2 3 4 5 show ?thesis by blast
qed

theorem registry_holds_serving_handlers_witness:
  "reachable srv_left \<and> length (admissions srv_left) \<le> 2 ^ 64 \<and>
   wg srv_left = [Exited, Serving 1 (NewClientConnection (TCPConn 2) 1)] \<and>
   map_of (clients (mu srv_left)) 1 = Some (NewClientConnection (TCPConn 2) 1) \<and>
   map_of (clients (mu srv_left)) 0 = None \<and>
   (0, TCPConn 1) \<in> set (admissions srv_left) \<and>
   ClientClose 0 (TCPConn 1) \<in> set (effects srv_left)"
proof -
  have len: "length (admissions srv_left) \<le> 2 ^ 64" by (simp add: srv_left_eq)
  from registry_holds_serving_handlers [OF srv_left_reachable len]
  have "map_of (clients (mu srv_left)) 1 = Some (NewClientConnection (TCPConn 2) 1)"
    by (simp add: srv_left_eq)
  with srv_left_reachable len show ?thesis by (simp add: srv_left_eq)
qed

text \<open>
  C10 as stated fails when the counter has wrapped around. In \<open>srv_wrap\<close> the handler of
  the first connection is still serving it under id 0, and the registry holds the last
  connection under id 0 instead; when the first handler then leaves, its deferred delete
  empties the registry while the last connection is still being served.
\<close>

theorem registry_wrap_counterexample:
  "reachable srv_wrap \<and>
   wg srv_wrap ! 0 = Serving 0 (NewClientConnection (TCPConn 1) 0) \<and>
   wg srv_wrap ! (2 ^ 64) = Serving 0 (NewClientConnection (TCPConn 2) 0) \<and>
   map_of (clients (mu srv_wrap)) 0 = Some (NewClientConnection (TCPConn 2) 0) \<and>
   NewClientConnection (TCPConn 1) 0 \<noteq> NewClientConnection (TCPConn 2) 0 \<and>
   reachable (do_leave 0 srv_wrap) \<and>
   clients (mu (do_leave 0 srv_wrap)) = [] \<and>
   wg (do_leave 0 srv_wrap) ! (2 ^ 64) = Serving 0 (NewClientConnection (TCPConn 2) 0)"
proof -
  note f = srv_wrap_facts [unfolded Suc_2_64]
  from f have r: "reachable srv_wrap"
    and w0: "wg srv_wrap ! 0 = Serving 0 (NewClientConnection (TCPConn 1) 0)"
    and wn: "wg srv_wrap ! (2 ^ 64) = Serving 0 (NewClientConnection (TCPConn 2) 0)"
    and len: "length (wg srv_wrap) = Suc (2 ^ 64)"
    and cl: "clients (mu srv_wrap) = [(0, NewClientConnection (TCPConn 2) 0)]"
    by blast+
  from len have l0: "0 < length (wg srv_wrap)" by simp
  have r': "reachable (do_leave 0 srv_wrap)" by (rule reach_leave [OF r l0 w0])
  have eq: "do_leave 0 srv_wrap = srv_wrap\<lparr>mu := onConn_deferred 0 (mu srv_wrap),
      wg := (wg srv_wrap)[0 := Closing 0 (NewClientConnection (TCPConn 1) 0)]\<rparr>"
    by (simp add: do_leave_def w0)
  have c': "clients (mu (do_leave 0 srv_wrap)) = []"
    by (simp add: eq onConn_deferred_def cl AList.delete_eq)
  have wl: "wg (do_leave 0 srv_wrap) = (wg srv_wrap)[0 := Closing 0 (NewClientConnection (TCPConn 1) 0)]"
    by (simp add: eq)
  have "(0 :: nat) \<noteq> 2 ^ 64" by simp
  then have "wg (do_leave 0 srv_wrap) ! (2 ^ 64) = wg srv_wrap ! (2 ^ 64)"
    unfolding wl by (rule nth_list_update_neq)
  then have w': "wg (do_leave 0 srv_wrap) ! (2 ^ 64) =
      Serving 0 (NewClientConnection (TCPConn 2) 0)"
    using wn by (rule trans)
  have m0: "map_of (clients (mu srv_wrap)) 0 = Some (NewClientConnection (TCPConn 2) 0)"
    by (simp add: cl)
  have ne: "NewClientConnection (TCPConn 1) 0 \<noteq> NewClientConnection (TCPConn 2) 0"
    by (simp add: NewClientConnection_def)
  from r w0 wn m0 ne r' c' w' show ?thesis by blast
qed

lemma reach_close_listener:
  "reachable s \<Longrightarrow> close_pc s = NotCalled \<Longrightarrow> reachable (do_close_listener lerr s)"
  by (rule reachable.after [OF _ step.close_listener])

lemma reach_close_sweep:
  "reachable s \<Longrightarrow> close_pc s = ListenerClosed errs \<Longrightarrow> reachable (do_close_sweep cl s)"
  by (rule reachable.after [OF _ step.close_sweep])

lemma reach_close_return:
  "reachable s \<Longrightarrow> close_pc s = Swept errs \<Longrightarrow> wg_idle (wg s) \<Longrightarrow>
   reachable (do_close_return s)"
  by (rule reachable.after [OF _ step.close_return])

lemmas race_defs = NewSQLServer_def do_accept_def do_spawn_def wg_Run_def do_admit_def
  do_close_listener_def do_close_sweep_def do_close_return_def wg_idle_def Collect_def
  onConn_locked_def onConn_body_def Let_def

lemma srv_race_eq:
  "srv_race =
     \<lparr>mu = \<lparr>tcpKeepAlive = False, connID = 1, maxConnections = 0,
            clients = [(0, NewClientConnection (TCPConn 1) 0)]\<rparr>,
      listener_open = False, ctx_done = False,
      wg = [Serving 0 (NewClientConnection (TCPConn 1) 0)],
      run_pc = Accepting, close_pc = CloseReturned None,
      effects = [ListenerClose, ClientRun 0 (TCPConn 1)],
      admissions = [(0, TCPConn 1)]\<rparr>"
  by (simp add: srv_race_def race_defs)

lemma srv_race_reachable: "reachable srv_race"
  unfolding srv_race_def
  apply (rule reach_admit [where c = "TCPConn 1"])
    apply (rule reach_spawn [where c = "TCPConn 1"])
     apply (rule reach_close_return [where errs = "[]"])
       apply (rule reach_close_sweep [where errs = "[]"])
        apply (rule reach_close_listener)
         apply (rule reach_accept)
           apply (rule reachable.init)
          apply (simp_all add: race_defs)
  done

text \<open>What \<^verbatim>\<open>Close\<close> does keep.\<close>

lemma close_clients_result:
  "close_clients cl cs (errs, effs) =
     (errs @ List.map_filter (\<lambda>(cid, clientConn). cl clientConn) cs,
      effs @ map (\<lambda>(cid, clientConn). ClientClose cid (cc_conn clientConn)) cs)"
proof (induction cs arbitrary: errs effs)
  case Nil
  show ?case by (simp add: List.map_filter_simps)
next
  case (Cons x cs)
  obtain cid cc where x: "x = (cid, cc)" by (cases x)
  show ?case
    by (cases "cl cc") (simp_all add: x Cons.IH List.map_filter_simps)
qed

lemma close_sweep_closes_every_client:
  assumes "close_pc s = ListenerClosed errs"
  shows "close_pc (do_close_sweep cl s) =
           Swept (errs @ List.map_filter (\<lambda>(cid, clientConn). cl clientConn) (clients (mu s))) \<and>
         effects (do_close_sweep cl s) =
           effects s @ map (\<lambda>(cid, clientConn). ClientClose cid (cc_conn clientConn)) (clients (mu s))"
  by (simp add: do_close_sweep_def assms close_clients_result)

lemma close_stops_accepting:
  "reachable s \<Longrightarrow> close_pc s \<noteq> NotCalled \<Longrightarrow> \<not> listener_open s"
proof (induction rule: reachable.induct)
  case (init ka mc)
  then show ?case by (simp add: NewSQLServer_def)
next
  case (after s s')
  from after.hyps(2) after.IH after.prems show ?case
  proof (cases rule: step.cases)
    case (admit i c)
    with after.IH after.prems do_admit_cases [of s i c] show ?thesis by auto
  next
    case (close_sweep errs cl)
    with after.IH show ?thesis by (simp add: close_sweep_fields)
  next
    case (close_return errs)
    with after.IH show ?thesis by (simp add: close_return_fields)
  qed (auto simp: do_accept_def do_spawn_def do_leave_def do_finish_def do_close_listener_def
         split: handler.splits)
qed

lemma close_returns_when_idle:
  assumes "step s s'" "close_pc s' = CloseReturned r" "close_pc s \<noteq> CloseReturned r"
  shows "wg_idle (wg s') \<and> (\<exists>errs. close_pc s = Swept errs \<and> r = Collect ErrCloseServer errs)"
  using assms
proof (cases rule: step.cases)
  case (admit i c)
  with assms(2,3) do_admit_cases [of s i c] show ?thesis by auto
next
  case (close_sweep errs cl)
  with assms(2) show ?thesis by (simp add: do_close_sweep_def split: prod.splits)
next
  case (close_return errs)
  with assms(2) show ?thesis by (simp add: do_close_return_def)
qed (auto simp: do_accept_def do_spawn_def do_leave_def do_finish_def do_close_listener_def
       split: handler.splits)

lemma Collect_aggregates: "errs \<noteq> [] \<Longrightarrow> Collect ErrCloseServer errs = Some (MError ErrCloseServer errs)"
  by (simp add: Collect_def)

text \<open>
  C4. \<^verbatim>\<open>Close\<close> closes the listener, closes every registered client connection whatever
  the closes return, waits for the wait group and returns the collected errors. But the accept
  loop is not itself in the wait group: in \<open>srv_race\<close>, a reachable state,
  \<^verbatim>\<open>Close\<close> has returned (without an error) and the handler of a connection that was
  accepted before the listener was closed is started afterwards, is registered and runs its
  client connection, which nothing closes.
\<close>

theorem handler_runs_after_close_returned:
  "reachable srv_race \<and>
   close_pc srv_race = CloseReturned None \<and>
   wg srv_race = [Serving 0 (NewClientConnection (TCPConn 1) 0)] \<and>
   \<not> wg_idle (wg srv_race) \<and>
   clients (mu srv_race) = [(0, NewClientConnection (TCPConn 1) 0)] \<and>
   effects srv_race = [ListenerClose, ClientRun 0 (TCPConn 1)]"
  using srv_race_reachable by (simp add: srv_race_eq wg_idle_def)

section \<open>The backend connection manager, as the spec describes it\<close>

lemma run_handshake_Failed:
  "hs_state h = Failed \<Longrightarrow> run_handshake exchange pol cs user credential h pkts = h"
  by (induction pkts) (simp_all add: handshake_step_def)

text \<open>
  C1. Whatever the capability bitsets of the client, of the policy and of the backend's
  greeting, whatever the plugin, the salt and the packets that follow: when the backend
  mandates TLS and the client session has not completed TLS, the handshake ends in
  \<open>Failed\<close> with the TLS-required error on the greeting, and nothing has been sent to the
  backend, so no packet that carries a credential.
\<close>

theorem tls_required_before_credentials:
  assumes "mandates_tls pol" "\<not> client_tls cs"
  shows
    "run_handshake exchange pol cs user credential new_handshake (GreetingPacket g # pkts) =
       \<lparr>hs_state = Failed, hs_capability = 0, hs_plugin = None, hs_sent = [],
        hs_error = Some ErrTLSRequired\<rparr> \<and>
     (\<forall>p \<in> set (hs_sent (run_handshake exchange pol cs user credential new_handshake
          (GreetingPacket g # pkts))). \<not> carries_credential p)"
proof -
  have "handshake_step exchange pol cs user credential new_handshake (GreetingPacket g) =
      \<lparr>hs_state = Failed, hs_capability = 0, hs_plugin = None, hs_sent = [],
        hs_error = Some ErrTLSRequired\<rparr>"
    using assms
    by (simp add: handshake_step_def on_greeting_def fail_handshake_def new_handshake_def)
  then show ?thesis by (simp add: run_handshake_Failed)
qed

theorem tls_required_before_credentials_witness:
  "mandates_tls tls_policy \<and> \<not> client_tls plain_client \<and>
   hs_sent (run_handshake (\<lambda>h pkt. h) tls_policy plain_client ''root'' ''secret'' new_handshake
      [GreetingPacket tls_greeting, OKPacket]) = [] \<and>
   hs_error (run_handshake (\<lambda>h pkt. h) tls_policy plain_client ''root'' ''secret'' new_handshake
      [GreetingPacket tls_greeting, OKPacket]) = Some ErrTLSRequired"
  using tls_required_before_credentials [of tls_policy plain_client "\<lambda>h pkt. h" "''root''"
      "''secret''" tls_greeting "[OKPacket]"]
  by (simp add: tls_policy_def plain_client_def)

text \<open>
  Without the mandate, or with TLS on the client side, the same greeting is answered by a
  handshake response: the check is what stops the credential.
\<close>

lemma handshake_response_otherwise:
  "\<not> (mandates_tls pol \<and> \<not> client_tls cs) \<Longrightarrow>
   hs_sent (handshake_step exchange pol cs user credential new_handshake (GreetingPacket g)) =
     [HandshakeResponse (offered_capability pol cs g) (greeting_auth_plugin g)
        (Scramble (greeting_auth_plugin g) (greeting_salt g) credential) user (client_schema cs)]"
  by (auto simp: handshake_step_def on_greeting_def new_handshake_def)

section \<open>Second handshake and redirection, as the spec describes them\<close>

text \<open>
  C5. For a command that changes the identity or the schema, the second handshake writes
  to the backend socket the session already has and opens none; when the backend ends the
  exchange with an error, that error is what the client receives, the backend session is
  \<open>Failed\<close> (nothing more is written to the backend, so the prior identity is not
  restored), and the client connection and the client session are as before.
\<close>

theorem second_handshake_same_socket:
  assumes "changes_identity_or_schema cmd"
  shows
    "backend_socket (backend (second_handshake cmd rep s)) = backend_socket (backend s) \<and>
     dialled (second_handshake cmd rep s) = dialled s \<and>
     closed_sockets (second_handshake cmd rep s) = closed_sockets s \<and>
     written (second_handshake cmd rep s) = written s @ [(backend_socket (backend s), cmd)] \<and>
     client_open (second_handshake cmd rep s) = client_open s \<and>
     (\<forall>e. rep = ReplyERR e \<longrightarrow>
        to_client (second_handshake cmd rep s) = to_client s @ [ClientERR e] \<and>
        backend (second_handshake cmd rep s) = (backend s)\<lparr>backend_state := Failed\<rparr> \<and>
        client (second_handshake cmd rep s) = client s) \<and>
     (rep = ReplyOK \<longrightarrow>
        backend_state (backend (second_handshake cmd rep s)) = Established \<and>
        backend_user (backend (second_handshake cmd rep s)) =
          new_user cmd (backend_user (backend s)) \<and>
        backend_schema (backend (second_handshake cmd rep s)) =
          new_schema cmd (backend_schema (backend s)))"
  by (cases rep) (simp_all add: second_handshake_def Let_def)

theorem second_handshake_same_socket_witness:
  "changes_identity_or_schema (ComChangeUser ''another_user'' ''another_db'') \<and>
   second_handshake (ComChangeUser ''another_user'' ''another_db'') (ReplyERR ''access denied'')
       some_session =
     some_session
       \<lparr>backend := some_backend\<lparr>backend_state := Failed\<rparr>,
        written := [(3, ComChangeUser ''another_user'' ''another_db'')],
        to_client := [ClientERR ''access denied'']\<rparr> \<and>
   client_open (second_handshake (ComChangeUser ''another_user'' ''another_db'')
       (ReplyERR ''access denied'') some_session) \<and>
   dialled (second_handshake (ComChangeUser ''another_user'' ''another_db'')
       (ReplyERR ''access denied'') some_session) = [''10.0.0.1:4000'']"
  using second_handshake_same_socket [of "ComChangeUser ''another_user'' ''another_db''"
      "ReplyERR ''access denied''" some_session]
  by (simp add: second_handshake_def some_session_def new_session_def some_backend_def Let_def)

lemma session_step_redirect_inv:
  assumes "session_step s s'" "redirect_inv s"
  shows "redirect_inv s'"
  using assms
proof (cases rule: session_step.cases)
  case (rehandshake cmd rep)
  with assms(2) show ?thesis
    by (cases rep) (simp_all add: redirect_inv_def second_handshake_def Let_def)
next
  case (redirect tgt)
  with assms(2) show ?thesis by (simp add: redirect_inv_def redirect_start_def)
next
  case (redirected outcome)
  with assms(2) obtain tgt where "redirect_target (backend s) = Some tgt"
    by (auto simp: redirect_inv_def)
  with redirected assms(2) show ?thesis
    by (cases outcome) (simp_all add: redirect_inv_def redirect_finish_def)
qed (simp_all add: redirect_inv_def)

lemma session_reachable_redirect_inv: "session_reachable s \<Longrightarrow> redirect_inv s"
proof (induction rule: session_reachable.induct)
  case (fresh cs bs addr)
  show ?case by (simp add: redirect_inv_def new_session_def)
next
  case (later s s')
  then show ?case by (simp add: session_step_redirect_inv)
qed

lemma some_session_reachable: "session_reachable some_session"
  unfolding some_session_def by (rule session_reachable.fresh)

text \<open>
  C3. In every reachable state of a session the redirections started and not yet finished
  number at most one, and one exactly when the flag of the backend session is set (a
  redirection starts only when the flag is clear). A redirection that finishes with a
  failed handshake clears the flag and the target and reports the failure to the caller,
  and changes nothing else: the backend session with its socket, the client session, what
  was written to the client and the client connection are as they were; started from a
  state without a redirection, the start and the failure together leave the backend session
  exactly as it was.
\<close>

theorem redirection_fail_safe:
  assumes "session_reachable s"
  shows
    "redirects_finished s \<le> redirects_started s \<and>
     redirects_started s - redirects_finished s \<le> 1 \<and>
     redirect_in_progress (backend s) = (redirects_started s - redirects_finished s = 1) \<and>
     (\<forall>tgt err. redirect_target (backend s) = Some tgt \<longrightarrow>
        redirect_finish (Inl err) s =
          s\<lparr>backend := (backend s)\<lparr>redirect_in_progress := False, redirect_target := None\<rparr>,
            reports := reports s @ [(tgt, Some err)],
            redirects_finished := Suc (redirects_finished s)\<rparr>) \<and>
     (\<forall>tgt err. \<not> redirect_in_progress (backend s) \<longrightarrow>
        backend (redirect_finish (Inl err) (redirect_start tgt s)) = backend s \<and>
        client (redirect_finish (Inl err) (redirect_start tgt s)) = client s \<and>
        client_open (redirect_finish (Inl err) (redirect_start tgt s)) = client_open s \<and>
        to_client (redirect_finish (Inl err) (redirect_start tgt s)) = to_client s \<and>
        written (redirect_finish (Inl err) (redirect_start tgt s)) = written s \<and>
        closed_sockets (redirect_finish (Inl err) (redirect_start tgt s)) = closed_sockets s \<and>
        reports (redirect_finish (Inl err) (redirect_start tgt s)) =
          reports s @ [(tgt, Some err)])"
proof -
  from assms have inv: "redirect_inv s" by (rule session_reachable_redirect_inv)
  then have cnt: "redirects_started s =
      redirects_finished s + (if redirect_in_progress (backend s) then 1 else 0)"
    and tg: "redirect_in_progress (backend s) = (redirect_target (backend s) \<noteq> None)"
    by (simp_all add: redirect_inv_def)
  have 1: "redirects_finished s \<le> redirects_started s"
    "redirects_started s - redirects_finished s \<le> 1"
    "redirect_in_progress (backend s) = (redirects_started s - redirects_finished s = 1)"
    using cnt by (simp_all split: if_splits)
  have 2: "redirect_finish (Inl err) s =
          s\<lparr>backend := (backend s)\<lparr>redirect_in_progress := False, redirect_target := None\<rparr>,
            reports := reports s @ [(tgt, Some err)],
            redirects_finished := Suc (redirects_finished s)\<rparr>"
    if "redirect_target (backend s) = Some tgt" for tgt err
    using that by (simp add: redirect_finish_def)
  have 3: "backend (redirect_finish (Inl err) (redirect_start tgt s)) = backend s \<and>
        client (redirect_finish (Inl err) (redirect_start tgt s)) = client s \<and>
        client_open (redirect_finish (Inl err) (redirect_start tgt s)) = client_open s \<and>
        to_client (redirect_finish (Inl err) (redirect_start tgt s)) = to_client s \<and>
        written (redirect_finish (Inl err) (redirect_start tgt s)) = written s \<and>
        closed_sockets (redirect_finish (Inl err) (redirect_start tgt s)) = closed_sockets s \<and>
        reports (redirect_finish (Inl err) (redirect_start tgt s)) =
          reports s @ [(tgt, Some err)]"
    if "\<not> redirect_in_progress (backend s)" for tgt err
  proof -
    from that tg have "redirect_target (backend s) = None" by simp
    with that have "(backend s)\<lparr>redirect_in_progress := False, redirect_target := None\<rparr> = backend s"
      by simp
    then show ?thesis by (simp add: redirect_finish_def redirect_start_def)
  qed
  from 1 2 3 show ?thesis by blast
qed

theorem redirection_fail_safe_witness:
  "session_reachable some_session \<and> \<not> redirect_in_progress (backend some_session) \<and>
   redirect_finish (Inl ''connection refused'') (redirect_start ''10.0.0.2:4000'' some_session) =
     some_session
       \<lparr>dialled := [''10.0.0.1:4000'', ''10.0.0.2:4000''],
        reports := [(''10.0.0.2:4000'', Some ''connection refused'')],
        redirects_started := 1, redirects_finished := 1\<rparr>"
  using redirection_fail_safe [OF some_session_reachable] some_session_reachable
  by (simp add: some_session_def new_session_def redirect_finish_def redirect_start_def)

end
